theory Spec2Isabelle
  imports Main "HOL-Library.Word" "HOL-Library.List_Lexorder"
begin

unbundle bit_operations_syntax

section \<open>The reference store (reference.h)\<close>

text \<open>
  \<^verbatim>\<open>BitPairReference\<close> keeps the unambiguous bases of all reference sequences in one
  bit-packed byte array (\<^verbatim>\<open>buf_\<close>, two bits per base) and describes the ambiguous
  stretches by a vector of records.  All counters of the class are \<^verbatim>\<open>uint32_t\<close>; they
  are 32-bit words here, so that their arithmetic wraps as in the source.  A read
  outside a vector or outside \<^verbatim>\<open>buf_\<close> is undefined in C++; the accessors below
  return \<open>None\<close> there.
\<close>

type_synonym u8 = "8 word"
type_synonym u32 = "32 word"

record RefRecord =
  off :: u32
  len :: u32
  first :: bool

record BitPairReference =
  recs :: "RefRecord list"
  refLens :: "u32 list"
  refOffs :: "u32 list"
  refRecOffs :: "u32 list"
  buf :: "u8 list"
  bufSz :: u32
  nrefs :: u32
  loaded :: bool

subsection \<open>getBase\<close>

text \<open>
  The expression \<^verbatim>\<open>(buf_[bufElt] >> shift) & 3\<close> with \<^verbatim>\<open>bufElt = bufOff >> 2\<close> and
  \<^verbatim>\<open>shift = (bufOff & 3) << 1\<close>.
\<close>

definition bufBase :: "u8 list \<Rightarrow> u32 \<Rightarrow> nat option" where
  "bufBase b bufOff =
     (let bufElt = unat (drop_bit 2 bufOff);
          shift = unat (push_bit 1 (bufOff AND 3))
      in if bufElt < length b then Some (unat (drop_bit shift (b ! bufElt) AND 3)) else None)"

text \<open>
  The loop of \<^verbatim>\<open>getBase\<close> over the records \<open>i = reci, ..., recf - 1\<close> of the target
  reference, with the loop variables \<open>off\<close> and \<open>bufOff\<close>.
\<close>

function getBase_loop ::
  "BitPairReference \<Rightarrow> nat \<Rightarrow> nat \<Rightarrow> u32 \<Rightarrow> u32 \<Rightarrow> u32 \<Rightarrow> nat option" where
  "getBase_loop st i recf toff bufOff off0 =
     (if i < recf then
        (if i < length (recs st) then
           (let r = recs st ! i;
                off1 = off0 + off r
            in if toff < off1 then Some 4
               else
                 (let recOff = off1 + len r
                  in if toff < recOff then bufBase (buf st) (bufOff + (toff - off1))
                     else getBase_loop st (Suc i) recf toff (bufOff + len r) recOff))
         else None)
      else Some 4)"
  by pat_completeness auto
termination
  by (relation "measure (\<lambda>(st, i, recf, toff, bufOff, off0). recf - i)") auto

definition getBase :: "BitPairReference \<Rightarrow> u32 \<Rightarrow> u32 \<Rightarrow> nat option" where
  "getBase st tidx toff =
     (if unat tidx < length (refRecOffs st) \<and> unat (tidx + 1) < length (refRecOffs st)
         \<and> unat tidx < length (refOffs st)
      then getBase_loop st (unat (refRecOffs st ! unat tidx))
             (unat (refRecOffs st ! unat (tidx + 1))) toff (refOffs st ! unat tidx) 0
      else None)"

subsection \<open>getStretch\<close>

text \<open>
  \<^verbatim>\<open>getStretch\<close> writes \<^verbatim>\<open>dest[0], dest[1], ...\<close> in order (\<^verbatim>\<open>cur\<close> starts at 0 and
  is incremented at every write); the model returns the list of the values written.
  The first inner loop,
  \<^verbatim>\<open>for(; toff < off && count > 0; toff++) { dest[cur++] = 4; count--; }\<close>:
\<close>

function fillAmbig :: "u32 \<Rightarrow> u32 \<Rightarrow> u32 \<Rightarrow> nat list \<Rightarrow> u32 \<times> u32 \<times> nat list" where
  "fillAmbig toff off0 count dest =
     (if toff < off0 \<and> count > 0 then fillAmbig (toff + 1) off0 (count - 1) (dest @ [4])
      else (toff, count, dest))"
  by pat_completeness auto
termination
  by (relation "measure (\<lambda>(toff, off0, count, dest). unat count)")
     (auto simp: unat_minus_one word_greater_zero_iff unat_gt_0)

text \<open>
  The second inner loop, which copies bases out of \<^verbatim>\<open>buf_\<close>:
  \<^verbatim>\<open>for(; toff < off && count > 0; toff++) { dest[cur++] = (buf_[bufElt] >> shift) & 3;
  bufOff++; count--; }\<close>.
\<close>

function copyBases ::
  "u8 list \<Rightarrow> u32 \<Rightarrow> u32 \<Rightarrow> u32 \<Rightarrow> u32 \<Rightarrow> nat list \<Rightarrow> (u32 \<times> u32 \<times> u32 \<times> nat list) option" where
  "copyBases b toff off0 count bufOff dest =
     (if toff < off0 \<and> count > 0 then
        (case bufBase b bufOff of
           None \<Rightarrow> None
         | Some v \<Rightarrow> copyBases b (toff + 1) off0 (count - 1) (bufOff + 1) (dest @ [v]))
      else Some (toff, count, bufOff, dest))"
  by pat_completeness auto
termination
  by (relation "measure (\<lambda>(b, toff, off0, count, bufOff, dest). unat count)")
     (auto simp: unat_minus_one word_greater_zero_iff unat_gt_0)

text \<open>The loop over the records of the target reference.\<close>

function getStretch_loop ::
  "BitPairReference \<Rightarrow> nat \<Rightarrow> nat \<Rightarrow> u32 \<Rightarrow> u32 \<Rightarrow> u32 \<Rightarrow> u32 \<Rightarrow> nat list
     \<Rightarrow> (u32 \<times> nat list) option" where
  "getStretch_loop st i recf toff count bufOff off0 dest =
     (if i < recf then
        (if i < length (recs st) then
           (let r = recs st ! i;
                off1 = off0 + off r;
                (toff1, count1, dest1) = fillAmbig toff off1 count dest
            in if count1 = 0 then Some (count1, dest1)
               else
                 (let bufOff1 = bufOff + (toff1 - off1);
                      off2 = off1 + len r
                  in case copyBases (buf st) toff1 off2 count1 bufOff1 dest1 of
                       None \<Rightarrow> None
                     | Some (toff2, count2, bufOff2, dest2) \<Rightarrow>
                         if count2 = 0 then Some (count2, dest2)
                         else getStretch_loop st (Suc i) recf toff2 count2 bufOff2 off2 dest2))
         else None)
      else Some (count, dest))"
  by pat_completeness auto
termination
  by (relation "measure (\<lambda>(st, i, recf, toff, count, bufOff, off0, dest). recf - i)") auto

text \<open>The closing loop \<^verbatim>\<open>while(count > 0) { count--; dest[cur++] = 4; }\<close>.\<close>

function padAmbig :: "u32 \<Rightarrow> nat list \<Rightarrow> nat list" where
  "padAmbig count dest = (if count > 0 then padAmbig (count - 1) (dest @ [4]) else dest)"
  by pat_completeness auto
termination
  by (relation "measure (\<lambda>(count, dest). unat count)")
     (auto simp: unat_minus_one word_greater_zero_iff unat_gt_0)

definition getStretch :: "BitPairReference \<Rightarrow> u32 \<Rightarrow> u32 \<Rightarrow> u32 \<Rightarrow> nat list option" where
  "getStretch st tidx toff count =
     (if unat tidx < length (refRecOffs st) \<and> unat (tidx + 1) < length (refRecOffs st)
         \<and> unat tidx < length (refOffs st)
      then (case getStretch_loop st (unat (refRecOffs st ! unat tidx))
                   (unat (refRecOffs st ! unat (tidx + 1))) toff count
                   (refOffs st ! unat tidx) 0 [] of
              None \<Rightarrow> None
            | Some (count1, dest1) \<Rightarrow> Some (padAmbig count1 dest1))
      else None)"

text \<open>
  What the specification calls the concatenation of \<^verbatim>\<open>base\<close>: the values
  \<open>getBase tidx toff, getBase tidx (toff + 1), ..., getBase tidx (toff + n - 1)\<close>.
\<close>

fun basesFrom :: "BitPairReference \<Rightarrow> u32 \<Rightarrow> u32 \<Rightarrow> nat \<Rightarrow> nat option list" where
  "basesFrom st tidx toff 0 = []"
| "basesFrom st tidx toff (Suc n) = getBase st tidx toff # basesFrom st tidx (toff + 1) n"

subsection \<open>Loading\<close>

text \<open>
  The constructor reads the two index files.  A file is the list of its bytes, \<open>None\<close>
  when it cannot be opened.  \<^verbatim>\<open>fread(&one, 4, 1, f3)\<close> stores four bytes in a
  \<^verbatim>\<open>uint32_t\<close> in the byte order of the machine; the model is little-endian, the
  order for which the sentinel \<^verbatim>\<open>1\<close> means "no swap".
\<close>

definition u32_of_bytes :: "u8 list \<Rightarrow> u32" where
  "u32_of_bytes bs =
     ucast (bs ! 0) OR push_bit 8 (ucast (bs ! 1)) OR push_bit 16 (ucast (bs ! 2))
       OR push_bit 24 (ucast (bs ! 3))"

definition fread_u32 :: "u8 list \<Rightarrow> (u32 \<times> u8 list) option" where
  "fread_u32 f = (if length f < 4 then None else Some (u32_of_bytes (take 4 f), drop 4 f))"

text \<open>
  Modelled from the spec: \<^verbatim>\<open>endianSwapU32\<close> is declared outside the two source files;
  it reverses the four bytes of a word.
\<close>

definition endianSwapU32 :: "u32 \<Rightarrow> u32" where
  "endianSwapU32 w =
     push_bit 24 (w AND 0xff) OR push_bit 8 (w AND 0xff00)
       OR (drop_bit 8 w AND 0xff00) OR drop_bit 24 w"

text \<open>
  Modelled from the spec: the constructor \<^verbatim>\<open>RefRecord(FILE*, bool swap)\<close> is declared
  outside the two source files.  The spec gives the layout of a record,
  \<^verbatim>\<open>{off:u32, len:u32, first:u8}\<close>, the two words subject to byte-swapping; the
  model reads nine bytes and yields \<open>None\<close> when the file ends before them.
\<close>

definition readRefRecord :: "bool \<Rightarrow> u8 list \<Rightarrow> (RefRecord \<times> u8 list) option" where
  "readRefRecord swap f =
     (if length f < 9 then None
      else
        (let ow = u32_of_bytes (take 4 f);
             lw = u32_of_bytes (take 4 (drop 4 f))
         in Some (\<lparr>off = (if swap then endianSwapU32 ow else ow),
                    len = (if swap then endianSwapU32 lw else lw),
                    first = (f ! 8 = 1)\<rparr>, drop 9 f)))"

text \<open>
  How a run of the constructor ends: it returns (with \<^verbatim>\<open>loaded_\<close> true or false), it
  calls \<^verbatim>\<open>exit(1)\<close>, or an \<^verbatim>\<open>assert\<close> of the source aborts it.  The strings are what
  was written to \<^verbatim>\<open>cerr\<close> (the first line of each message, without the file name).
\<close>

datatype load_outcome =
    Returned BitPairReference "string list"
  | Exit1 "string list"
  | AssertAbort

record load_vars =
  lv_recs :: "RefRecord list"
  lv_refLens :: "u32 list"
  lv_refOffs :: "u32 list"
  lv_refRecOffs :: "u32 list"
  lv_nrefs :: u32
  lv_cumsz :: u32
  lv_cumlen :: u32

text \<open>
  The loop \<^verbatim>\<open>for(uint32_t i = 0; i < sz; i++)\<close> of the constructor; \<open>n\<close> counts the
  iterations left.  \<open>None\<close>: a record could not be read.
\<close>

fun load_records :: "bool \<Rightarrow> nat \<Rightarrow> u8 list \<Rightarrow> load_vars \<Rightarrow> load_vars option" where
  "load_records swap 0 f v = Some v"
| "load_records swap (Suc n) f v =
     (case readRefRecord swap f of
        None \<Rightarrow> None
      | Some (r, f') \<Rightarrow>
          (let rs = lv_recs v @ [r];
               v1 = v\<lparr>lv_recs := rs\<rparr>;
               v2 = (if first r
                     then v1\<lparr>lv_refRecOffs := lv_refRecOffs v1 @ [of_nat (length rs - 1)],
                             lv_refOffs := lv_refOffs v1 @ [lv_cumsz v1],
                             lv_refLens := (if lv_nrefs v1 > 0 then lv_refLens v1 @ [lv_cumlen v1]
                                            else lv_refLens v1),
                             lv_cumlen := 0,
                             lv_nrefs := lv_nrefs v1 + 1\<rparr>
                     else v1);
               v3 = v2\<lparr>lv_cumsz := lv_cumsz v2 + len r,
                        lv_cumlen := lv_cumlen v2 + off r + len r\<rparr>
           in load_records swap n f' v3))"

definition msg_open3 :: string where
  "msg_open3 = ''Could not open reference-string index file (.3.ebwt) for reading.''"
definition msg_open4 :: string where
  "msg_open4 = ''Could not open reference-string index file (.4.ebwt) for reading.''"
definition msg_first_word :: string where
  "msg_first_word = ''Error reading first word from reference-structure index file''"
definition msg_nrecords :: string where
  "msg_nrecords = ''Error reading # records from reference-structure index file''"
definition msg_record :: string where
  "msg_record = ''Error reading RefRecord from FILE''"
definition msg_short :: string where
  "msg_short = ''Only read fewer bytes than expected from reference index file''"

definition unloaded :: BitPairReference where
  "unloaded = \<lparr>recs = [], refLens = [], refOffs = [], refRecOffs = [], buf = [],
                bufSz = 0, nrefs = 0, loaded = False\<rparr>"

text \<open>
  The constructor.  \<open>ndebug\<close> says whether the build defines \<^verbatim>\<open>NDEBUG\<close>, which turns
  every \<^verbatim>\<open>assert\<close> into nothing.  The debug-only comparison against the original
  sequences (\<^verbatim>\<open>sanity_\<close>) is left out.  \<open>load3\<close> is the part that reads the
  \<^verbatim>\<open>.3.ebwt\<close> file once it is open (it ends the run, or yields the loop
  variables); \<open>load4\<close> is the rest, from the closing of that file on.
\<close>

definition load3 :: "bool \<Rightarrow> u8 list \<Rightarrow> load_outcome + load_vars" where
  "load3 ndebug b3 =
     (case fread_u32 b3 of
        None \<Rightarrow> Inl (Exit1 [msg_first_word])
      | Some (one, b3a) \<Rightarrow>
          if one \<noteq> 1 \<and> one \<noteq> 0x1000000 \<and> \<not> ndebug then Inl AssertAbort
          else
            (let swap = (one \<noteq> 1)
             in case fread_u32 b3a of
                  None \<Rightarrow> Inl (Exit1 [msg_nrecords])
                | Some (sz0, b3b) \<Rightarrow>
                    (let sz = (if swap then endianSwapU32 sz0 else sz0)
                     in case load_records swap (unat sz) b3b
                               \<lparr>lv_recs = [], lv_refLens = [], lv_refOffs = [],
                                lv_refRecOffs = [], lv_nrefs = 0, lv_cumsz = 0,
                                lv_cumlen = 0\<rparr> of
                          None \<Rightarrow> Inl (Exit1 [msg_record])
                        | Some v \<Rightarrow> Inr v)))"

definition load4 :: "bool \<Rightarrow> load_vars \<Rightarrow> u8 list option \<Rightarrow> load_outcome" where
  "load4 ndebug v f4 =
     (let recOffs = lv_refRecOffs v @ [of_nat (length (lv_recs v))];
          offs = lv_refOffs v @ [lv_cumsz v];
          lens = lv_refLens v @ [lv_cumlen v];
          cumsz = (if lv_cumsz v AND 3 \<noteq> 0 then lv_cumsz v + (4 - (lv_cumsz v AND 3))
                   else lv_cumsz v);
          nbytes = unat (drop_bit 2 cumsz)
      in if unat (lv_nrefs v) \<noteq> length lens \<and> \<not> ndebug then AssertAbort
         else
           (case f4 of
              None \<Rightarrow>
                Returned
                  \<lparr>recs = lv_recs v, refLens = lens, refOffs = offs, refRecOffs = recOffs,
                   buf = [], bufSz = lv_cumsz v, nrefs = lv_nrefs v, loaded = False\<rparr>
                  [msg_open4]
            | Some b4 \<Rightarrow>
                if length b4 < nbytes then Exit1 [msg_short]
                else if length b4 > nbytes \<and> \<not> ndebug then AssertAbort
                else
                  Returned
                    \<lparr>recs = lv_recs v, refLens = lens, refOffs = offs, refRecOffs = recOffs,
                     buf = take nbytes b4, bufSz = lv_cumsz v, nrefs = lv_nrefs v,
                     loaded = True\<rparr> []))"

definition load :: "bool \<Rightarrow> u8 list option \<Rightarrow> u8 list option \<Rightarrow> load_outcome" where
  "load ndebug f3 f4 =
     (case f3 of
        None \<Rightarrow> Returned unloaded [msg_open3]
      | Some b3 \<Rightarrow>
          (case load3 ndebug b3 of
             Inl out \<Rightarrow> out
           | Inr v \<Rightarrow> load4 ndebug v f4))"

text \<open>
  A load is fatal with a message when it ends in \<^verbatim>\<open>exit(1)\<close> after writing one; it
  continues silently when the constructor returns a loaded store and has written nothing;
  it stops with a message when it has written one and either exits or returns a store
  that is not loaded.
\<close>

fun fatal_with_message :: "load_outcome \<Rightarrow> bool" where
  "fatal_with_message (Exit1 ms) = (ms \<noteq> [])"
| "fatal_with_message (Returned st ms) = False"
| "fatal_with_message AssertAbort = False"

fun continues_silently :: "load_outcome \<Rightarrow> bool" where
  "continues_silently (Returned st ms) = (loaded st \<and> ms = [])"
| "continues_silently (Exit1 ms) = False"
| "continues_silently AssertAbort = False"

fun stops_with_message :: "load_outcome \<Rightarrow> bool" where
  "stops_with_message (Returned st ms) = (\<not> loaded st \<and> ms \<noteq> [])"
| "stops_with_message (Exit1 ms) = (ms \<noteq> [])"
| "stops_with_message AssertAbort = False"

section \<open>The backtracker (ebwt_search_backtrack.h)\<close>

subsection \<open>Data\<close>

text \<open>
  A read is a \<^verbatim>\<open>String<Dna>\<close>: the list of its base codes 0 (A), 1 (C), 2 (G), 3 (T).
  Rows of the index, the weighted Hamming distance, the quality threshold and the
  counters of a frame are \<^verbatim>\<open>uint32_t\<close> and are 32-bit words here; depths and stack
  depths never exceed the length of the read and are natural numbers.
\<close>

record QueryMutation =
  pos :: u8
  oldBase :: u8
  newBase :: u8

text \<open>
  The class \<^verbatim>\<open>Ebwt\<close> is declared outside the two source files; the search uses it through
  the members below, which the model takes as parameters.  A \<^verbatim>\<open>SideLocus\<close> is made from
  a row by \<^verbatim>\<open>initFromTopBot\<close> and is represented by that row.  \<^verbatim>\<open>mapLFEx\<close> fills the
  four tops and the four bottoms (a list of eight rows: tops first).
  \<^verbatim>\<open>reportChaseOne\<close> is given the read, the mismatch list \<^verbatim>\<open>_mms[0..stackDepth)\<close> and
  the row, and answers whether the sink took the hit.
\<close>

record Ebwt =
  ftabChars :: nat
  fchr :: "nat \<Rightarrow> u32"
  ftabHi :: "u32 \<Rightarrow> u32"
  ftabLo :: "u32 \<Rightarrow> u32"
  mapLF :: "u32 \<Rightarrow> nat \<Rightarrow> u32"
  mapLFEx :: "u32 \<Rightarrow> u32 \<Rightarrow> u32 list"
  reportChaseOne :: "nat list \<Rightarrow> u32 list \<Rightarrow> u32 \<Rightarrow> bool"

text \<open>
  The members of \<^verbatim>\<open>BacktrackManager\<close> that a search only reads.  \<open>nextU32 n\<close> is the
  \<open>n\<close>-th number drawn from \<^verbatim>\<open>_rand\<close>; \<open>pairsSz\<close> and \<open>elimsSz\<close> are the sizes with
  which the arenas \<^verbatim>\<open>_pairs\<close> and \<^verbatim>\<open>_elims\<close> were allocated.
\<close>

record BtConfig =
  qlen :: nat
  qual :: "u8 list"
  unrevOff :: nat
  oneRevOff :: nat
  twoRevOff :: nat
  qualThresh :: u32
  reportSeedlings :: nat
  muts :: "QueryMutation list option"
  halfAndHalf :: bool
  depth5 :: nat
  depth3 :: nat
  spread :: nat
  maxStackDepth :: nat
  oneHit :: bool
  pairsSz :: nat
  elimsSz :: nat
  nextU32 :: "nat \<Rightarrow> u32"

text \<open>A hit as the sink receives it from \<^verbatim>\<open>reportChaseOne\<close>.\<close>

record Hit =
  h_row :: u32
  h_mms :: "u32 list"
  h_qry :: "nat list"

text \<open>
  What a search writes: the borrowed read, the two arenas, \<^verbatim>\<open>_mms\<close>, \<^verbatim>\<open>_chars\<close>, the
  seedling output, the number of draws from \<^verbatim>\<open>_rand\<close>, and the hits the sink took.
\<close>

record BtState =
  qry :: "nat list"
  pairs :: "nat \<Rightarrow> u32"
  elims :: "nat \<Rightarrow> u8"
  mms :: "nat \<Rightarrow> u32"
  chars :: "nat \<Rightarrow> char"
  seedlings :: "u8 list"
  draws :: nat
  hits :: "Hit list"

text \<open>The parameters of one call of the recursive \<^verbatim>\<open>backtrack\<close>.\<close>

record Frame =
  f_stackDepth :: nat
  f_depth :: nat
  f_unrevOff :: nat
  f_oneRevOff :: nat
  f_twoRevOff :: nat
  f_top :: u32
  f_bot :: u32
  f_ham :: u32
  f_iham :: u32
  f_pairs :: nat
  f_elims :: nat

text \<open>Its local variables that live across iterations.\<close>

record Locals =
  l_d :: nat
  l_top :: u32
  l_bot :: u32
  l_altNum :: u32
  l_eligibleNum :: u32
  l_eligibleSz :: u32
  l_lowAltQual :: u8

text \<open>
  A run ends abnormally where the source divides by zero (\<^verbatim>\<open>% eligibleSz\<close>,
  \<^verbatim>\<open>% spread\<close>), where \<^verbatim>\<open>assert(foundTarget)\<close> or
  \<^verbatim>\<open>assert_leq(stackDepth, _maxStackDepth)\<close> fails, where a frame touches a row of
  \<^verbatim>\<open>_pairs\<close> or a byte of \<^verbatim>\<open>_elims\<close> beyond the end of the allocation (\<open>OutOfArena\<close>) or
  inside the allocation but not in a slice that lies in it and is its own
  (\<open>SliceViolation\<close>), and where the entry assertions on the lengths of read and
  qualities fail.
\<close>

datatype bt_error =
  DivByZero | TargetNotFound | StackTooDeep | SliceViolation | OutOfArena | BadLengths

type_synonym bt_result = "bt_error + bool \<times> BtState"

subsection \<open>Macros and small helpers\<close>

definition DEFAULT_SPREAD :: nat where
  "DEFAULT_SPREAD = 64"

text \<open>
  \<^verbatim>\<open>QUAL(k) = ((uint8_t)(*_qual)[k] >= 33 ? ((uint8_t)(*_qual)[k] - 33) : 0)\<close>; every
  use assigns it to a \<^verbatim>\<open>uint8_t\<close>.  \<^verbatim>\<open>QUAL2(q, k)\<close> is the same on another string.
\<close>

definition QUAL2 :: "u8 list \<Rightarrow> nat \<Rightarrow> u8" where
  "QUAL2 q k = (if q ! k \<ge> 33 then q ! k - 33 else 0)"

definition QUAL :: "BtConfig \<Rightarrow> nat \<Rightarrow> u8" where
  "QUAL cfg k = QUAL2 (qual cfg) k"

definition PAIR_TOP :: "BtState \<Rightarrow> Frame \<Rightarrow> nat \<Rightarrow> nat \<Rightarrow> u32" where
  "PAIR_TOP s fr d c = pairs s (f_pairs fr + d * 8 + c)"

definition PAIR_BOT :: "BtState \<Rightarrow> Frame \<Rightarrow> nat \<Rightarrow> nat \<Rightarrow> u32" where
  "PAIR_BOT s fr d c = pairs s (f_pairs fr + d * 8 + c + 4)"

definition PAIR_SPREAD :: "BtState \<Rightarrow> Frame \<Rightarrow> nat \<Rightarrow> nat \<Rightarrow> u32" where
  "PAIR_SPREAD s fr d c = PAIR_BOT s fr d c - PAIR_TOP s fr d c"

definition elimAt :: "BtState \<Rightarrow> Frame \<Rightarrow> nat \<Rightarrow> u8" where
  "elimAt s fr d = elims s (f_elims fr + d)"

definition setElim :: "Frame \<Rightarrow> nat \<Rightarrow> u8 \<Rightarrow> BtState \<Rightarrow> BtState" where
  "setElim fr d v s = s\<lparr>elims := (elims s)(f_elims fr + d := v)\<rparr>"

definition bitOf :: "nat \<Rightarrow> u8" where
  "bitOf c = push_bit c 1"

text \<open>
  Modelled from the spec: the conversions between \<^verbatim>\<open>Dna\<close> and \<^verbatim>\<open>char\<close> belong to the
  sequence library, outside the two source files.  A base code is written as its
  letter; a letter in either case is read back as its code (the spec calls the
  second byte of a seedling pair the chosen base code).
\<close>

definition dnaToChar :: "nat \<Rightarrow> char" where
  "dnaToChar c = ''ACGT'' ! c"

definition charToDna :: "char \<Rightarrow> nat" where
  "charToDna ch =
     (if ch = CHR ''c'' \<or> ch = CHR ''C'' then 1
      else if ch = CHR ''g'' \<or> ch = CHR ''G'' then 2
      else if ch = CHR ''t'' \<or> ch = CHR ''T'' then 3
      else 0)"

subsection \<open>Mutations\<close>

text \<open>
  \<^verbatim>\<open>applyMutations\<close> and \<^verbatim>\<open>undoMutations\<close> walk the mutation list in order and assign
  \<^verbatim>\<open>(*_qry)[m.pos]\<close>.  A position outside the read is excluded by an assertion of the
  source; the list update leaves the read unchanged there.
\<close>

fun applyMuts :: "QueryMutation list \<Rightarrow> nat list \<Rightarrow> nat list" where
  "applyMuts [] q = q"
| "applyMuts (m # ms) q = applyMuts ms (q[unat (pos m) := unat (newBase m)])"

fun undoMuts :: "QueryMutation list \<Rightarrow> nat list \<Rightarrow> nat list" where
  "undoMuts [] q = q"
| "undoMuts (m # ms) q = undoMuts ms (q[unat (pos m) := unat (oldBase m)])"

definition applyMutations :: "BtConfig \<Rightarrow> BtState \<Rightarrow> BtState" where
  "applyMutations cfg s =
     (case muts cfg of None \<Rightarrow> s | Some ms \<Rightarrow> s\<lparr>qry := applyMuts ms (qry s)\<rparr>)"

definition undoMutations :: "BtConfig \<Rightarrow> BtState \<Rightarrow> BtState" where
  "undoMutations cfg s =
     (case muts cfg of None \<Rightarrow> s | Some ms \<Rightarrow> s\<lparr>qry := undoMuts ms (qry s)\<rparr>)"

subsection \<open>Reporting\<close>

text \<open>
  \<^verbatim>\<open>reportSeedling\<close>: for \<open>i < stackDepth\<close> it appends \<^verbatim>\<open>(uint8_t)_mms[i]\<close>, then the
  code of \<^verbatim>\<open>_chars[_qlen - _mms[i] - 1]\<close>, then \<^verbatim>\<open>0xfe\<close> unless \<open>i\<close> is the last index.
\<close>

fun seedlingBytes :: "BtConfig \<Rightarrow> BtState \<Rightarrow> nat \<Rightarrow> nat \<Rightarrow> u8 list" where
  "seedlingBytes cfg s stackDepth 0 = []"
| "seedlingBytes cfg s stackDepth (Suc n) =
     (let i = stackDepth - Suc n;
          ci = qlen cfg - unat (mms s i) - 1
      in [ucast (mms s i), of_nat (charToDna (chars s ci))]
           @ (if i < stackDepth - 1 then [0xfe] else [])
           @ seedlingBytes cfg s stackDepth n)"

definition reportSeedling :: "BtConfig \<Rightarrow> nat \<Rightarrow> BtState \<Rightarrow> BtState" where
  "reportSeedling cfg stackDepth s =
     s\<lparr>seedlings := seedlings s @ seedlingBytes cfg s stackDepth stackDepth\<rparr>"




text \<open>
  The loop of \<^verbatim>\<open>reportHit\<close> over \<open>i = 0, ..., spread - 1\<close>: the rows of the interval
  in rotation from \<open>r\<close>; the first row the sink accepts ends it.
\<close>

fun chaseRows :: "(u32 \<Rightarrow> bool) \<Rightarrow> u32 \<Rightarrow> u32 \<Rightarrow> u32 \<Rightarrow> u32 \<Rightarrow> nat \<Rightarrow> u32 option" where
  "chaseRows acc r bot1 sp i 0 = None"
| "chaseRows acc r bot1 sp i (Suc n) =
     (let ri0 = r + i;
          ri = (if ri0 \<ge> bot1 then ri0 - sp else ri0)
      in if acc ri then Some ri else chaseRows acc r bot1 sp (i + 1) n)"

definition mmsList :: "BtState \<Rightarrow> nat \<Rightarrow> u32 list" where
  "mmsList s n = map (mms s) [0..<n]"

definition reportHit :: "BtConfig \<Rightarrow> Ebwt \<Rightarrow> nat \<Rightarrow> u32 \<Rightarrow> u32 \<Rightarrow> BtState \<Rightarrow> bt_result" where
  "reportHit cfg e stackDepth top1 bot1 s =
     (if oneHit cfg then
        (let sp = bot1 - top1
         in if sp = 0 then Inl DivByZero
            else
              (let r = top1 + (nextU32 cfg (draws s) mod sp);
                   s1 = s\<lparr>draws := draws s + 1\<rparr>;
                   ms = mmsList s1 stackDepth
               in case chaseRows (reportChaseOne e (qry s1) ms) r bot1 sp 0 (unat sp) of
                    None \<Rightarrow> Inr (False, s1)
                  | Some ri \<Rightarrow>
                      Inr (True, s1\<lparr>hits := hits s1 @ [\<lparr>h_row = ri, h_mms = ms, h_qry = qry s1\<rparr>]\<rparr>)))
      else Inr (False, s))"

text \<open>The loop of \<^verbatim>\<open>report\<close> that splices the mutated positions into \<^verbatim>\<open>_mms\<close>.\<close>

fun spliceMuts :: "QueryMutation list \<Rightarrow> nat \<Rightarrow> (nat \<Rightarrow> u32) \<Rightarrow> (nat \<Rightarrow> u32)" where
  "spliceMuts [] k m = m"
| "spliceMuts (x # xs) k m = spliceMuts xs (Suc k) (m(k := ucast (pos x)))"

definition report :: "BtConfig \<Rightarrow> Ebwt \<Rightarrow> nat \<Rightarrow> u32 \<Rightarrow> u32 \<Rightarrow> BtState \<Rightarrow> bt_result" where
  "report cfg e stackDepth top1 bot1 s =
     (if reportSeedlings cfg > 0 then Inr (False, reportSeedling cfg stackDepth s)
      else
        (let s1 = undoMutations cfg s
         in case (case muts cfg of
                    Some ms \<Rightarrow>
                      reportHit cfg e (stackDepth + length ms) top1 bot1
                        (s1\<lparr>mms := spliceMuts ms stackDepth (mms s1)\<rparr>)
                  | None \<Rightarrow> reportHit cfg e stackDepth top1 bot1 s1) of
              Inl err \<Rightarrow> Inl err
            | Inr (hit, s2) \<Rightarrow> Inr (hit, applyMutations cfg s2)))"

subsection \<open>One step of the matching loop\<close>

text \<open>
  The body of the loop \<^verbatim>\<open>while(cur < _qlen)\<close> of the recursive \<^verbatim>\<open>backtrack\<close> up to the
  inner loop \<^verbatim>\<open>while((top == bot && altNum > 0) || keepGoingDespiteMatch)\<close>, lines 513-676.

  \<open>writeRow b vs\<close> stores the words \<open>vs\<close> at \<open>b, b + 1, ...\<close>.  \<open>seedPairs\<close> is the
  first quartet taken from \<^verbatim>\<open>_fchr\<close> (lines 565-569; it is written at row 0 of the
  frame's slice).  \<open>fillPairs\<close> is \<^verbatim>\<open>bzero(&pairs[d*8], 8 * 4)\<close> followed by
  \<^verbatim>\<open>mapLFEx(ltop, lbot, &pairs[d*8], &pairs[(d*8)+4])\<close> (lines 574-576).
\<close>

fun writeRow :: "nat \<Rightarrow> u32 list \<Rightarrow> (nat \<Rightarrow> u32) \<Rightarrow> (nat \<Rightarrow> u32)" where
  "writeRow b [] f = f"
| "writeRow b (v # vs) f = writeRow (Suc b) vs (f(b := v))"

definition seedPairs :: "Ebwt \<Rightarrow> Frame \<Rightarrow> BtState \<Rightarrow> BtState" where
  "seedPairs e fr s =
     s\<lparr>pairs := writeRow (f_pairs fr)
        [fchr e 0, fchr e 1, fchr e 2, fchr e 3, fchr e 1, fchr e 2, fchr e 3, fchr e 4]
        (pairs s)\<rparr>"

definition fillPairs :: "Ebwt \<Rightarrow> Frame \<Rightarrow> nat \<Rightarrow> u32 \<Rightarrow> u32 \<Rightarrow> BtState \<Rightarrow> BtState" where
  "fillPairs e fr d top1 bot1 s =
     s\<lparr>pairs := writeRow (f_pairs fr + d * 8) (take 8 (mapLFEx e top1 bot1))
        (writeRow (f_pairs fr + d * 8) (replicate 8 0) (pairs s))\<rparr>"

text \<open>
  One turn of the loop \<^verbatim>\<open>for(int i = 0; i < 4; i++)\<close> of lines 598-624 at depth \<open>d\<close>, for
  the read character \<open>c\<close> of quality \<open>q\<close>: a closed pair is eliminated; an open pair of
  another character that is not eliminated is an alternative, and an eligible one when
  \<^verbatim>\<open>curIsEligible\<close> (\<open>elig\<close>); the first eligible one found while \<^verbatim>\<open>curOverridesEligible\<close>
  (\<open>ovr\<close>) resets \<^verbatim>\<open>lowAltQual\<close>, \<^verbatim>\<open>eligibleNum\<close> and \<^verbatim>\<open>eligibleSz\<close>.
\<close>

definition quartetStep ::
  "Frame \<Rightarrow> nat \<Rightarrow> nat \<Rightarrow> u8 \<Rightarrow> bool \<Rightarrow> nat \<Rightarrow> Locals \<times> bool \<times> BtState \<Rightarrow> Locals \<times> bool \<times> BtState" where
  "quartetStep fr d c q elig i x =
     (case x of (lc, ovr, s) \<Rightarrow>
        (let sp = PAIR_SPREAD s fr d i;
             s1 = (if sp = 0 then setElim fr d (elimAt s fr d OR bitOf i) s else s)
         in if i \<noteq> c \<and> sp > 0 \<and> elimAt s1 fr d AND bitOf i = 0 then
              (if elig then
                 (let lc0 = (if ovr then lc\<lparr>l_eligibleNum := 0, l_eligibleSz := 0, l_lowAltQual := q\<rparr>
                             else lc)
                  in (lc0\<lparr>l_altNum := l_altNum lc0 + 1,
                          l_eligibleNum := l_eligibleNum lc0 + 1,
                          l_eligibleSz := l_eligibleSz lc0 + sp\<rparr>, False, s1))
               else (lc\<lparr>l_altNum := l_altNum lc + 1\<rparr>, ovr, s1))
            else (lc, ovr, s1)))"

definition quartet ::
  "Frame \<Rightarrow> nat \<Rightarrow> nat \<Rightarrow> u8 \<Rightarrow> bool \<Rightarrow> Locals \<times> bool \<times> BtState \<Rightarrow> Locals \<times> bool \<times> BtState" where
  "quartet fr d c q elig x = fold (quartetStep fr d c q elig) [0, 1, 2, 3] x"

text \<open>
  \<^verbatim>\<open>keepGoingDespiteMatch\<close>, lines 637-676, computed after the quartet: in seedling mode
  at the last character, with a seedling reported when \<open>stackDepth > 0\<close>; in
  half-and-half mode at the depths \<^verbatim>\<open>_5depth - 1\<close> and \<^verbatim>\<open>_3depth - 1\<close>.
\<close>

definition keepGoing :: "BtConfig \<Rightarrow> Frame \<Rightarrow> Locals \<Rightarrow> BtState \<Rightarrow> bool \<times> BtState" where
  "keepGoing cfg fr lc s =
     (if qlen cfg - l_d lc - 1 = 0 \<and> l_top lc < l_bot lc
         \<and> f_stackDepth fr < reportSeedlings cfg \<and> reportSeedlings cfg > 0 \<and> l_altNum lc > 0
      then (True, if f_stackDepth fr > 0 then reportSeedling cfg (f_stackDepth fr) s else s)
      else if halfAndHalf cfg \<and> l_d lc + 1 = depth5 cfg \<and> l_top lc < l_bot lc
      then (f_stackDepth fr = 0, s)
      else if halfAndHalf cfg \<and> l_d lc + 1 = depth3 cfg \<and> l_top lc < l_bot lc
      then (f_stackDepth fr < 2, s)
      else (False, s))"

text \<open>
  \<^verbatim>\<open>bool curIsAlternative = (d >= unrevOff) && (ham + q <= _qualThresh)\<close>, line 532; the sum
  is one of \<^verbatim>\<open>uint32_t\<close>.
\<close>

definition curIsAlternative :: "BtConfig \<Rightarrow> Frame \<Rightarrow> nat \<Rightarrow> bool" where
  "curIsAlternative cfg fr d =
     (d \<ge> f_unrevOff fr \<and> f_ham fr + ucast (QUAL cfg (qlen cfg - d - 1)) \<le> qualThresh cfg)"

text \<open>
  The new \<^verbatim>\<open>top\<close> and \<^verbatim>\<open>bot\<close>, lines 561-584: from \<^verbatim>\<open>_fchr\<close> when both are 0, from the
  quartet computed by \<^verbatim>\<open>mapLFEx\<close> when the position is an alternative, from two calls of
  \<^verbatim>\<open>mapLF\<close> otherwise.
\<close>

definition materialize ::
  "Ebwt \<Rightarrow> Frame \<Rightarrow> Locals \<Rightarrow> bool \<Rightarrow> nat \<Rightarrow> BtState \<Rightarrow> Locals \<times> BtState" where
  "materialize e fr lc alt c s =
     (if l_top lc = 0 \<and> l_bot lc = 0 then
        (let s1 = seedPairs e fr s
         in (lc\<lparr>l_top := PAIR_TOP s1 fr (l_d lc) c, l_bot := PAIR_BOT s1 fr (l_d lc) c\<rparr>, s1))
      else if alt then
        (let s1 = fillPairs e fr (l_d lc) (l_top lc) (l_bot lc) s
         in (lc\<lparr>l_top := PAIR_TOP s1 fr (l_d lc) c, l_bot := PAIR_BOT s1 fr (l_d lc) c\<rparr>, s1))
      else (lc\<lparr>l_top := mapLF e (l_top lc) c, l_bot := mapLF e (l_bot lc) c\<rparr>, s))"

text \<open>
  One pass through lines 513-676: the eligibility flags (lines 523-548), the new pair,
  \<^verbatim>\<open>elims[d] = (1 << c)\<close> (line 592), the quartet loop when the position is an alternative,
  and \<^verbatim>\<open>keepGoingDespiteMatch\<close>.
\<close>

definition matchStep ::
  "BtConfig \<Rightarrow> Ebwt \<Rightarrow> Frame \<Rightarrow> Locals \<Rightarrow> BtState \<Rightarrow> Locals \<times> BtState \<times> bool" where
  "matchStep cfg e fr lc s =
     (let d = l_d lc;
          cur = qlen cfg - d - 1;
          c = qry s ! cur;
          q = QUAL cfg cur;
          alt = curIsAlternative cfg fr d;
          elig = (alt \<and> q \<le> l_lowAltQual lc);
          ovr = (alt \<and> q < l_lowAltQual lc);
          (lc1, s1) = materialize e fr lc alt c s;
          s2 = setElim fr d (bitOf c) s1;
          (lc2, ovr2, s3) = (if alt then quartet fr d c q elig (lc1, ovr, s2) else (lc1, ovr, s2));
          (kg, s4) = keepGoing cfg fr lc2 s3
      in (lc2, s4, kg))"

subsection \<open>Choosing the backtrack target\<close>

text \<open>
  The choice of the backtrack target, lines 695-745: \<open>r\<close> is drawn below \<^verbatim>\<open>eligibleSz\<close>; the
  depths \<open>i\<close> from \<^verbatim>\<open>depth\<close> to \<open>d\<close> that are revisitable, have the quality \<^verbatim>\<open>lowAltQual\<close> and
  are not fully eliminated are scanned (\<open>selI\<close>), and at each of them the characters \<open>j\<close>
  not eliminated (\<open>selJ\<close>), adding up the widths of their pairs until the sum exceeds \<open>r\<close>.
  When the scan ends without a target, \<^verbatim>\<open>assert(foundTarget)\<close> (line 746) fails.
\<close>

record Target =
  t_i :: nat
  t_j :: nat
  t_top :: u32
  t_bot :: u32
  t_ham :: u32
  t_icur :: nat

fun selJ :: "BtState \<Rightarrow> Frame \<Rightarrow> nat \<Rightarrow> u32 \<Rightarrow> u32 \<Rightarrow> nat list \<Rightarrow> u32 \<times> nat option" where
  "selJ s fr i r cumSz [] = (cumSz, None)"
| "selJ s fr i r cumSz (j # js) =
     (if elimAt s fr i AND bitOf j = 0 then
        (let cumSz1 = cumSz + PAIR_SPREAD s fr i j
         in if r < cumSz1 then (cumSz1, Some j) else selJ s fr i r cumSz1 js)
      else selJ s fr i r cumSz js)"

fun selI ::
  "BtConfig \<Rightarrow> BtState \<Rightarrow> Frame \<Rightarrow> u8 \<Rightarrow> u32 \<Rightarrow> u32 \<Rightarrow> nat list \<Rightarrow> (nat \<times> nat) option" where
  "selI cfg s fr low r cumSz [] = None"
| "selI cfg s fr low r cumSz (i # is) =
     (if i < f_unrevOff fr then selI cfg s fr low r cumSz is
      else if QUAL cfg (qlen cfg - i - 1) = low \<and> elimAt s fr i \<noteq> 15 then
        (case selJ s fr i r cumSz [0, 1, 2, 3] of
           (cumSz1, Some j) \<Rightarrow> Some (i, j)
         | (cumSz1, None) \<Rightarrow> selI cfg s fr low r cumSz1 is)
      else selI cfg s fr low r cumSz is)"

text \<open>
  The region bounds given to the callee, lines 759-788, as the triple
  \<^verbatim>\<open>(btUnrevOff, btOneRevOff, btTwoRevOff)\<close>.  In the first branch the source assigns the
  member \<^verbatim>\<open>_2revOff\<close> to \<^verbatim>\<open>btOneRevOff\<close>.
\<close>

definition tighten :: "BtConfig \<Rightarrow> Frame \<Rightarrow> nat \<Rightarrow> nat \<times> nat \<times> nat" where
  "tighten cfg fr i =
     (if i < f_oneRevOff fr then (f_oneRevOff fr, twoRevOff cfg, f_twoRevOff fr)
      else if i < f_twoRevOff fr then
        (if \<not> halfAndHalf cfg then (f_unrevOff fr, f_twoRevOff fr, f_twoRevOff fr)
         else (f_unrevOff fr, f_oneRevOff fr, f_oneRevOff fr))
      else (f_unrevOff fr, f_oneRevOff fr, f_twoRevOff fr))"

text \<open>
  The arguments of the recursive call of lines 800-810; \<^verbatim>\<open>newPairs = pairs + (_spread*8)\<close>
  and \<^verbatim>\<open>newElims = elims + (_spread)\<close> (lines 752-753).
\<close>

definition childFrame :: "BtConfig \<Rightarrow> Frame \<Rightarrow> Target \<Rightarrow> Frame" where
  "childFrame cfg fr tg =
     (case tighten cfg fr (t_i tg) of (btUnrevOff, btOneRevOff, btTwoRevOff) \<Rightarrow>
        \<lparr>f_stackDepth = f_stackDepth fr + 1, f_depth = t_i tg + 1,
         f_unrevOff = btUnrevOff, f_oneRevOff = btOneRevOff, f_twoRevOff = btTwoRevOff,
         f_top = t_top tg, f_bot = t_bot tg, f_ham = t_ham tg, f_iham = f_iham fr,
         f_pairs = f_pairs fr + spread cfg * 8, f_elims = f_elims fr + spread cfg\<rparr>)"

text \<open>
  The draw, the scan, and the two assignments \<^verbatim>\<open>_mms[stackDepth] = icur\<close> and
  \<^verbatim>\<open>_chars[i] = btchar\<close> of lines 791-792.
\<close>

definition pickTarget ::
  "BtConfig \<Rightarrow> Frame \<Rightarrow> Locals \<Rightarrow> BtState \<Rightarrow> bt_error + Target \<times> BtState" where
  "pickTarget cfg fr lc s =
     (if l_eligibleSz lc = 0 then Inl DivByZero
      else
        (let r = nextU32 cfg (draws s) mod l_eligibleSz lc;
             s1 = s\<lparr>draws := draws s + 1\<rparr>
         in case selI cfg s1 fr (l_lowAltQual lc) r 0 [f_depth fr ..< Suc (l_d lc)] of
              None \<Rightarrow> Inl TargetNotFound
            | Some (i, j) \<Rightarrow>
                (let icur = qlen cfg - i - 1;
                     tg = \<lparr>t_i = i, t_j = j, t_top = PAIR_TOP s1 fr i j, t_bot = PAIR_BOT s1 fr i j,
                           t_ham = f_ham fr + ucast (QUAL cfg icur), t_icur = icur\<rparr>
                 in Inr (tg, s1\<lparr>mms := (mms s1)(f_stackDepth fr := of_nat icur),
                                chars := (chars s1)(i := ''acgt'' ! j)\<rparr>))))"

subsection \<open>After a failed attempt\<close>

text \<open>
  After an attempt that returned false, lines 820-828: the character of the read is put
  back into \<^verbatim>\<open>_chars[i]\<close>, the target is eliminated, and the three counters are decreased.
\<close>

definition failUpdate :: "Frame \<Rightarrow> Locals \<Rightarrow> Target \<Rightarrow> BtState \<Rightarrow> Locals \<times> BtState" where
  "failUpdate fr lc tg s =
     (let s1 = s\<lparr>chars := (chars s)(t_i tg := dnaToChar (qry s ! t_icur tg))\<rparr>;
          s2 = setElim fr (t_i tg) (elimAt s1 fr (t_i tg) OR bitOf (t_j tg)) s1
      in (lc\<lparr>l_altNum := l_altNum lc - 1,
             l_eligibleNum := l_eligibleNum lc - 1,
             l_eligibleSz := l_eligibleSz lc - (t_bot tg - t_top tg)\<rparr>, s2))"

text \<open>
  When no eligible target is left but alternatives are, the frame is scanned again for
  the alternatives of lowest quality, lines 841-873: \<open>rescanL\<close> is one turn of the loop over
  the characters \<open>l\<close>, \<open>rescanK\<close> one turn of the loop over the depths \<open>k\<close>.
\<close>

definition rescanL :: "BtState \<Rightarrow> Frame \<Rightarrow> nat \<Rightarrow> u8 \<Rightarrow> nat \<Rightarrow> Locals \<times> bool \<Rightarrow> Locals \<times> bool" where
  "rescanL s fr k kq l x =
     (case x of (lc, ovr) \<Rightarrow>
        if elimAt s fr k AND bitOf l = 0 then
          (let lc0 = (if ovr then lc\<lparr>l_eligibleNum := 0, l_eligibleSz := 0, l_lowAltQual := kq\<rparr>
                      else lc)
           in (lc0\<lparr>l_eligibleNum := l_eligibleNum lc0 + 1,
                   l_eligibleSz := l_eligibleSz lc0 + PAIR_SPREAD s fr k l\<rparr>, False))
        else (lc, ovr))"

definition rescanK :: "BtConfig \<Rightarrow> BtState \<Rightarrow> Frame \<Rightarrow> nat \<Rightarrow> Locals \<Rightarrow> Locals" where
  "rescanK cfg s fr k lc =
     (let kq = QUAL cfg (qlen cfg - k - 1);
          alt = curIsAlternative cfg fr k
      in if alt \<and> kq \<le> l_lowAltQual lc
         then fst (fold (rescanL s fr k kq) [0, 1, 2, 3] (lc, kq < l_lowAltQual lc))
         else lc)"

definition rescan :: "BtConfig \<Rightarrow> BtState \<Rightarrow> Frame \<Rightarrow> Locals \<Rightarrow> Locals" where
  "rescan cfg s fr lc =
     fold (rescanK cfg s fr) [f_depth fr ..< Suc (l_d lc)] (lc\<lparr>l_lowAltQual := 0xff\<rparr>)"

subsection \<open>The recursive search\<close>

text \<open>
  The test on entry to a frame in half-and-half mode, lines 470-485: a frame that starts
  at depth \<^verbatim>\<open>_5depth\<close> without a mismatch, or at depth \<^verbatim>\<open>_3depth\<close> with fewer than two,
  returns false.
\<close>

definition hhReject :: "BtConfig \<Rightarrow> Frame \<Rightarrow> bool" where
  "hhReject cfg fr =
     (halfAndHalf cfg \<and>
      (if f_depth fr = depth5 cfg then f_stackDepth fr < 1
       else if f_depth fr = depth3 cfg then f_stackDepth fr < 2
       else False))"

text \<open>The initial values of the locals, lines 495-508.\<close>

definition initLocals :: "Frame \<Rightarrow> Locals" where
  "initLocals fr =
     \<lparr>l_d = f_depth fr, l_top = f_top fr, l_bot = f_bot fr, l_altNum = 0,
      l_eligibleNum = 0, l_eligibleSz = 0, l_lowAltQual = 0xff\<rparr>"

text \<open>
  At depth \<open>d\<close> a frame touches the eight words \<^verbatim>\<open>pairs[d*8 .. d*8 + 8)\<close> and the byte
  \<^verbatim>\<open>elims[d]\<close>, \<^verbatim>\<open>pairs\<close> and \<^verbatim>\<open>elims\<close> being the pointers the frame was given.
  \<open>inArena\<close>: these lie in the arrays allocated by \<^verbatim>\<open>new uint32_t[...]\<close> and
  \<^verbatim>\<open>new uint8_t[...]\<close>.  \<open>sliceOK\<close>: they lie in the slice of the frame's stack position,
  \<^verbatim>\<open>[k*spread*8, (k+1)*spread*8)\<close> of \<^verbatim>\<open>_pairs\<close> and \<^verbatim>\<open>[k*spread, (k+1)*spread)\<close> of
  \<^verbatim>\<open>_elims\<close>, and that slice lies in the allocation.
\<close>

definition inArena :: "BtConfig \<Rightarrow> Frame \<Rightarrow> nat \<Rightarrow> bool" where
  "inArena cfg fr d =
     (f_pairs fr + (d + 1) * 8 \<le> pairsSz cfg \<and> f_elims fr + (d + 1) \<le> elimsSz cfg)"

definition sliceOK :: "BtConfig \<Rightarrow> Frame \<Rightarrow> nat \<Rightarrow> bool" where
  "sliceOK cfg fr d =
     (f_stackDepth fr * spread cfg * 8 \<le> f_pairs fr
      \<and> f_pairs fr + (d + 1) * 8 \<le> (f_stackDepth fr + 1) * spread cfg * 8
      \<and> (f_stackDepth fr + 1) * spread cfg * 8 \<le> pairsSz cfg
      \<and> f_stackDepth fr * spread cfg \<le> f_elims fr
      \<and> f_elims fr + (d + 1) \<le> (f_stackDepth fr + 1) * spread cfg
      \<and> (f_stackDepth fr + 1) * spread cfg \<le> elimsSz cfg)"

definition sliceError :: "BtConfig \<Rightarrow> Frame \<Rightarrow> nat \<Rightarrow> bt_error" where
  "sliceError cfg fr d = (if inArena cfg fr d then SliceViolation else OutOfArena)"

text \<open>After the loop, lines 901-921: the read is consumed.\<close>

definition finish :: "BtConfig \<Rightarrow> Ebwt \<Rightarrow> Frame \<Rightarrow> Locals \<Rightarrow> BtState \<Rightarrow> bt_result" where
  "finish cfg e fr lc s =
     (if f_stackDepth fr \<ge> reportSeedlings cfg
      then report cfg e (f_stackDepth fr) (l_top lc) (l_bot lc) s
      else Inr (False, s))"

text \<open>
  The recursive \<^verbatim>\<open>backtrack\<close> (lines 418-922) is the function \<open>bt_frame\<close>; its outer loop
  \<^verbatim>\<open>while(cur < _qlen)\<close> with the inner loop over backtrack attempts is \<open>bt_iter\<close>, which
  carries the place in the loop body: \<open>Advance\<close> is the top of the outer loop, \<open>Branch kg\<close>
  the test of the inner loop with the current value \<open>kg\<close> of \<^verbatim>\<open>keepGoingDespiteMatch\<close>.
  The source computes \<^verbatim>\<open>cur = _qlen - d - 1\<close> in \<^verbatim>\<open>uint32_t\<close>, so \<^verbatim>\<open>cur < _qlen\<close> is
  \<open>d < qlen\<close>.
\<close>

datatype phase = Advance | Branch bool

lemma selJ_some: "selJ s fr i r c js = (c', Some j) \<Longrightarrow> j \<in> set js"
  by (induction js arbitrary: c) (auto simp: Let_def split: if_splits)

lemma selI_range: "selI cfg s fr low r c is = Some (i, j) \<Longrightarrow> i \<in> set is"
  by (induction "is" arbitrary: c) (auto split: if_splits prod.splits option.splits)

lemma pickTarget_range:
  "pickTarget cfg fr lc s = Inr (tg, s') \<Longrightarrow> f_depth fr \<le> t_i tg \<and> t_i tg \<le> l_d lc"
  by (auto simp: pickTarget_def Let_def split: if_splits option.splits dest!: selI_range)

function bt_frame :: "BtConfig \<Rightarrow> Ebwt \<Rightarrow> Frame \<Rightarrow> BtState \<Rightarrow> bt_result"
  and bt_iter :: "BtConfig \<Rightarrow> Ebwt \<Rightarrow> Frame \<Rightarrow> Locals \<Rightarrow> phase \<Rightarrow> BtState \<Rightarrow> bt_result" where
  "bt_frame cfg e fr s =
     (if f_stackDepth fr > maxStackDepth cfg then Inl StackTooDeep
      else if hhReject cfg fr then Inr (False, s)
      else bt_iter cfg e fr (initLocals fr) Advance s)"
| "bt_iter cfg e fr lc ph s =
     (if l_d lc < qlen cfg then
        (case ph of
           Advance \<Rightarrow>
             (if \<not> sliceOK cfg fr (l_d lc) then Inl (sliceError cfg fr (l_d lc))
              else (case matchStep cfg e fr lc s of
                      (lc1, s1, kg) \<Rightarrow> bt_iter cfg e fr lc1 (Branch kg) s1))
         | Branch kg \<Rightarrow>
             (if (l_top lc = l_bot lc \<and> l_altNum lc > 0) \<or> kg then
                (case pickTarget cfg fr lc s of
                   Inl err \<Rightarrow> Inl err
                 | Inr (tg, s1) \<Rightarrow>
                     (case (if t_i tg + 1 = qlen cfg
                            then report cfg e (f_stackDepth fr + 1) (t_top tg) (t_bot tg) s1
                            else bt_frame cfg e (childFrame cfg fr tg) s1) of
                        Inl err \<Rightarrow> Inl err
                      | Inr (ret, s2) \<Rightarrow>
                          if ret then Inr (True, s2)
                          else
                            (case failUpdate fr lc tg s2 of
                               (lc2, s3) \<Rightarrow>
                                 if l_altNum lc2 = 0 then Inr (False, s3)
                                 else bt_iter cfg e fr
                                        (if l_eligibleNum lc2 = 0 then rescan cfg s3 fr lc2 else lc2)
                                        (Branch False) s3)))
              else if l_top lc = l_bot lc \<and> l_altNum lc = 0 then Inr (False, s)
              else bt_iter cfg e fr (lc\<lparr>l_d := l_d lc + 1\<rparr>) Advance
                     (s\<lparr>chars := (chars s)(l_d lc := dnaToChar (qry s ! (qlen cfg - l_d lc - 1)))\<rparr>)))
      else finish cfg e fr lc s)"
  by pat_completeness auto


lemma quartetStep_d: "quartetStep fr d c q elig i x = (lc', ovr', s') \<Longrightarrow> l_d lc' = l_d (fst x)"
  by (cases x) (auto simp: quartetStep_def Let_def split: if_splits)

lemma quartet_d:
  "fold (quartetStep fr d c q elig) js x = (lc', ovr', s') \<Longrightarrow> l_d lc' = l_d (fst x)"
proof (induction js arbitrary: x)
  case Nil
  then show ?case by simp
next
  case (Cons j js)
  obtain lc1 ovr1 s1 where st: "quartetStep fr d c q elig j x = (lc1, ovr1, s1)"
    by (cases "quartetStep fr d c q elig j x") auto
  with Cons.prems have "fold (quartetStep fr d c q elig) js (lc1, ovr1, s1) = (lc', ovr', s')"
    by simp
  from Cons.IH [OF this] quartetStep_d [OF st] show ?case by simp
qed

lemma quartet_d': "quartet fr d c q elig x = (lc', ovr', s') \<Longrightarrow> l_d lc' = l_d (fst x)"
  unfolding quartet_def by (rule quartet_d)

lemma materialize_d: "materialize e fr lc alt c s = (lc', s') \<Longrightarrow> l_d lc' = l_d lc"
  by (auto simp: materialize_def Let_def split: if_splits)

lemma matchStep_d: "matchStep cfg e fr lc s = (lc', s', kg) \<Longrightarrow> l_d lc' = l_d lc"
  by (auto simp: matchStep_def Let_def split: if_splits prod.splits
           dest!: quartet_d' materialize_d)

lemma failUpdate_d: "failUpdate fr lc tg s = (lc', s') \<Longrightarrow> l_d lc' = l_d lc \<and> l_altNum lc' = l_altNum lc - 1"
  by (auto simp: failUpdate_def Let_def)

lemma rescanL_d: "rescanL s fr k kq l x = (lc', ovr') \<Longrightarrow> l_d lc' = l_d (fst x) \<and> l_altNum lc' = l_altNum (fst x)"
  by (cases x) (auto simp: rescanL_def Let_def split: if_splits)

lemma rescanL_fold_d:
  "l_d (fst (fold (rescanL s fr k kq) ls x)) = l_d (fst x)
   \<and> l_altNum (fst (fold (rescanL s fr k kq) ls x)) = l_altNum (fst x)"
proof (induction ls arbitrary: x)
  case Nil
  then show ?case by simp
next
  case (Cons l ls)
  obtain lc1 ovr1 where st: "rescanL s fr k kq l x = (lc1, ovr1)"
    by (cases "rescanL s fr k kq l x") auto
  from Cons.IH [of "(lc1, ovr1)"] rescanL_d [OF st] st show ?case by simp
qed

lemma rescanK_d: "l_d (rescanK cfg s fr k lc) = l_d lc \<and> l_altNum (rescanK cfg s fr k lc) = l_altNum lc"
  using rescanL_fold_d [of s fr k "QUAL cfg (qlen cfg - k - 1)" "[0, 1, 2, 3]"
      "(lc, QUAL cfg (qlen cfg - k - 1) < l_lowAltQual lc)"]
  by (simp add: rescanK_def Let_def del: fold_simps)

lemma rescanK_fold_d:
  "l_d (fold (rescanK cfg s fr) ks lc) = l_d lc \<and> l_altNum (fold (rescanK cfg s fr) ks lc) = l_altNum lc"
  by (induction ks arbitrary: lc) (simp_all add: rescanK_d)

lemma rescan_d: "l_d (rescan cfg s fr lc) = l_d lc \<and> l_altNum (rescan cfg s fr lc) = l_altNum lc"
  using rescanK_fold_d [of cfg s fr _ "lc\<lparr>l_lowAltQual := 0xff\<rparr>"] by (simp add: rescan_def)

lemma childFrame_depth: "f_depth (childFrame cfg fr tg) = t_i tg + 1"
  by (simp add: childFrame_def split: prod.splits)

text \<open>
  Termination.  A callee starts at a depth beyond its target, so the number of depths
  left decreases from a frame to its callee; within a frame the depth \<open>d\<close> increases, and
  at a fixed depth every failed attempt decreases \<^verbatim>\<open>altNum\<close>.
\<close>

definition bt_m1 :: "BtConfig \<times> Ebwt \<times> Frame \<times> BtState + BtConfig \<times> Ebwt \<times> Frame \<times> Locals \<times> phase \<times> BtState \<Rightarrow> nat" where
  "bt_m1 x = (case x of Inl (cfg, e, fr, s) \<Rightarrow> qlen cfg - f_depth fr
                      | Inr (cfg, e, fr, lc, ph, s) \<Rightarrow> qlen cfg - f_depth fr)"
definition bt_m2 :: "BtConfig \<times> Ebwt \<times> Frame \<times> BtState + BtConfig \<times> Ebwt \<times> Frame \<times> Locals \<times> phase \<times> BtState \<Rightarrow> nat" where
  "bt_m2 x = (case x of Inl (cfg, e, fr, s) \<Rightarrow> 1 | Inr (cfg, e, fr, lc, ph, s) \<Rightarrow> 0)"
definition bt_m3 :: "BtConfig \<times> Ebwt \<times> Frame \<times> BtState + BtConfig \<times> Ebwt \<times> Frame \<times> Locals \<times> phase \<times> BtState \<Rightarrow> nat" where
  "bt_m3 x = (case x of Inl (cfg, e, fr, s) \<Rightarrow> 0 | Inr (cfg, e, fr, lc, ph, s) \<Rightarrow> qlen cfg - l_d lc)"
definition bt_m4 :: "BtConfig \<times> Ebwt \<times> Frame \<times> BtState + BtConfig \<times> Ebwt \<times> Frame \<times> Locals \<times> phase \<times> BtState \<Rightarrow> nat" where
  "bt_m4 x = (case x of Inl (cfg, e, fr, s) \<Rightarrow> 0
                      | Inr (cfg, e, fr, lc, ph, s) \<Rightarrow>
                          (case ph of Advance \<Rightarrow> 2 | Branch kg \<Rightarrow> (if kg then 1 else 0)))"
definition bt_m5 :: "BtConfig \<times> Ebwt \<times> Frame \<times> BtState + BtConfig \<times> Ebwt \<times> Frame \<times> Locals \<times> phase \<times> BtState \<Rightarrow> nat" where
  "bt_m5 x = (case x of Inl (cfg, e, fr, s) \<Rightarrow> 0 | Inr (cfg, e, fr, lc, ph, s) \<Rightarrow> unat (l_altNum lc))"

termination bt_frame
proof (relation "measures [bt_m1, bt_m2, bt_m3, bt_m4, bt_m5]", goal_cases)
  case 1
  show ?case by simp
next
  case (2 cfg e fr s)
  show ?case by (simp add: bt_m1_def bt_m2_def)
next
  case (3 cfg e fr lc ph s lc1 y s1 kg)
  then have "matchStep cfg e fr lc s = (lc1, s1, kg)" by simp
  then have "l_d lc1 = l_d lc" by (rule matchStep_d)
  with 3 show ?case by (simp add: bt_m1_def bt_m2_def bt_m3_def bt_m4_def)
next
  case (4 cfg e fr lc ph s kg b tg s1)
  then have "pickTarget cfg fr lc s = Inr (tg, s1)" by simp
  then have "f_depth fr \<le> t_i tg \<and> t_i tg \<le> l_d lc" by (rule pickTarget_range)
  with 4(1) have "qlen cfg - Suc (t_i tg) < qlen cfg - f_depth fr" by arith
  then show ?case by (simp add: bt_m1_def childFrame_depth)
next
  case (5 cfg e fr lc ph s kg b tg s1 ba ret s2 lc2 s3)
  then have "failUpdate fr lc tg s2 = (lc2, s3)" by simp
  then have a: "l_d lc2 = l_d lc \<and> l_altNum lc2 = l_altNum lc - 1" by (rule failUpdate_d)
  have b: "kg \<or> l_altNum lc > 0" using 5 by auto
  have c: "l_altNum lc > 0 \<Longrightarrow> unat (l_altNum lc - 1) < unat (l_altNum lc)"
    by (simp add: unat_minus_one word_greater_zero_iff unat_gt_0)
  from a b c 5(2) show ?case
    by (auto simp: bt_m1_def bt_m2_def bt_m3_def bt_m4_def bt_m5_def rescan_d)
next
  case (6 cfg e fr lc ph s kg)
  then have "qlen cfg - Suc (l_d lc) < qlen cfg - l_d lc" by arith
  then show ?case by (simp add: bt_m1_def bt_m2_def bt_m3_def)
qed


declare bt_frame.simps [simp del] bt_iter.simps [simp del]

subsection \<open>Rules for reasoning about the search\<close>

text \<open>
  One unfolding of \<open>bt_iter\<close> for each place of the loop, and two induction principles
  derived from the computation induction of the search.  \<open>bt_rule\<close>: a relation between
  the states before and after a call that holds of \<^verbatim>\<open>report\<close> and is kept by the steps of
  the loop holds of every call.  \<open>bt_hoare\<close>: the same with a precondition on the frame
  and an invariant of the loop.
\<close>

lemma bt_iter_done:
  "\<not> l_d lc < qlen cfg \<Longrightarrow> bt_iter cfg e fr lc ph s = finish cfg e fr lc s"
  by (subst bt_iter.simps) simp

lemma bt_iter_Advance:
  "l_d lc < qlen cfg \<Longrightarrow>
   bt_iter cfg e fr lc Advance s =
     (if \<not> sliceOK cfg fr (l_d lc) then Inl (sliceError cfg fr (l_d lc))
      else (case matchStep cfg e fr lc s of
              (lc1, s1, kg) \<Rightarrow> bt_iter cfg e fr lc1 (Branch kg) s1))"
  by (subst bt_iter.simps) simp

definition attempt :: "BtConfig \<Rightarrow> Ebwt \<Rightarrow> Frame \<Rightarrow> Target \<Rightarrow> BtState \<Rightarrow> bt_result" where
  "attempt cfg e fr tg s1 =
     (if t_i tg + 1 = qlen cfg
      then report cfg e (f_stackDepth fr + 1) (t_top tg) (t_bot tg) s1
      else bt_frame cfg e (childFrame cfg fr tg) s1)"

lemma bt_iter_Branch:
  "l_d lc < qlen cfg \<Longrightarrow>
   bt_iter cfg e fr lc (Branch kg) s =
     (if (l_top lc = l_bot lc \<and> l_altNum lc > 0) \<or> kg then
        (case pickTarget cfg fr lc s of
           Inl err \<Rightarrow> Inl err
         | Inr (tg, s1) \<Rightarrow>
             (case attempt cfg e fr tg s1 of
                Inl err \<Rightarrow> Inl err
              | Inr (ret, s2) \<Rightarrow>
                  if ret then Inr (True, s2)
                  else
                    (case failUpdate fr lc tg s2 of
                       (lc2, s3) \<Rightarrow>
                         if l_altNum lc2 = 0 then Inr (False, s3)
                         else bt_iter cfg e fr
                                (if l_eligibleNum lc2 = 0 then rescan cfg s3 fr lc2 else lc2)
                                (Branch False) s3)))
      else if l_top lc = l_bot lc \<and> l_altNum lc = 0 then Inr (False, s)
      else bt_iter cfg e fr (lc\<lparr>l_d := l_d lc + 1\<rparr>) Advance
             (s\<lparr>chars := (chars s)(l_d lc := dnaToChar (qry s ! (qlen cfg - l_d lc - 1)))\<rparr>))"
  by (subst bt_iter.simps) (simp only: if_True phase.case attempt_def)

lemma bt_rule:
  fixes G :: "BtConfig \<Rightarrow> Ebwt \<Rightarrow> BtState \<Rightarrow> BtState \<Rightarrow> bool"
    and R :: "BtConfig \<Rightarrow> Ebwt \<Rightarrow> BtState \<Rightarrow> bool \<Rightarrow> BtState \<Rightarrow> bool"
  assumes g_refl: "\<And>cfg e s. G cfg e s s"
    and g_trans: "\<And>cfg e a b c. G cfg e a b \<Longrightarrow> G cfg e b c \<Longrightarrow> G cfg e a c"
    and ms: "\<And>cfg e fr lc s lc' s' kg. matchStep cfg e fr lc s = (lc', s', kg) \<Longrightarrow> G cfg e s s'"
    and pk: "\<And>cfg e fr lc s tg s'. pickTarget cfg fr lc s = Inr (tg, s') \<Longrightarrow> G cfg e s s'"
    and fu: "\<And>cfg e fr lc tg s lc' s'. failUpdate fr lc tg s = (lc', s') \<Longrightarrow> G cfg e s s'"
    and ch: "\<And>cfg e s d c. G cfg e s (s\<lparr>chars := (chars s)(d := c)\<rparr>)"
    and rp: "\<And>cfg e k t b s ret s'. report cfg e k t b s = Inr (ret, s') \<Longrightarrow> R cfg e s ret s'"
    and r_false: "\<And>cfg e s s'. G cfg e s s' \<Longrightarrow> R cfg e s False s'"
    and r_pre: "\<And>cfg e s s1 ret s'. G cfg e s s1 \<Longrightarrow> R cfg e s1 ret s' \<Longrightarrow> R cfg e s ret s'"
    and r_seq: "\<And>cfg e s s1 ret s'. R cfg e s False s1 \<Longrightarrow> R cfg e s1 ret s' \<Longrightarrow> R cfg e s ret s'"
  shows "(\<forall>ret s'. bt_frame cfg e fr s = Inr (ret, s') \<longrightarrow> R cfg e s ret s')"
    and "(\<forall>ret s'. bt_iter cfg e fr lc ph s = Inr (ret, s') \<longrightarrow> R cfg e s ret s')"
proof (induction cfg e fr s and cfg e fr lc ph s rule: bt_frame_bt_iter.induct)
  case (1 cfg e fr s)
  show ?case
  proof (intro allI impI)
    fix ret s'
    assume res: "bt_frame cfg e fr s = Inr (ret, s')"
    show "R cfg e s ret s'"
    proof (cases "hhReject cfg fr")
      case True
      with res have "ret = False \<and> s' = s"
        by (simp add: bt_frame.simps split: if_splits)
      then show ?thesis using r_false [OF g_refl] by simp
    next
      case False
      with res have a: "\<not> maxStackDepth cfg < f_stackDepth fr"
        and b: "bt_iter cfg e fr (initLocals fr) Advance s = Inr (ret, s')"
        by (simp_all add: bt_frame.simps split: if_splits)
      from "1" [OF a False] b show ?thesis by simp
    qed
  qed
next
  case (2 cfg e fr lc ph s)
  show ?case
  proof (intro allI impI)
    fix ret s'
    assume res: "bt_iter cfg e fr lc ph s = Inr (ret, s')"
    show "R cfg e s ret s'"
    proof (cases "l_d lc < qlen cfg")
      case False
      with res have "finish cfg e fr lc s = Inr (ret, s')"
        by (simp add: bt_iter_done)
      then show ?thesis
        using rp r_false [OF g_refl] by (auto simp: finish_def split: if_splits)
    next
      case dlt: True
      show ?thesis
      proof (cases ph)
        case Advance
        obtain lc1 s1 kg where m: "matchStep cfg e fr lc s = (lc1, s1, kg)"
          by (cases "matchStep cfg e fr lc s") auto
        from res [unfolded Advance bt_iter_Advance [OF dlt]] m
        have ok: "\<not> \<not> sliceOK cfg fr (l_d lc)"
          and r1: "bt_iter cfg e fr lc1 (Branch kg) s1 = Inr (ret, s')"
          by (simp_all split: if_splits)
        have "R cfg e s1 ret s'"
          using "2.IH"(1) [OF dlt Advance ok m [symmetric] refl] r1 by simp
        with ms [OF m] show ?thesis by (rule r_pre)
      next
        case (Branch kg)
        note step = res [unfolded Branch bt_iter_Branch [OF dlt]]
        show ?thesis
        proof (cases "l_top lc = l_bot lc \<and> 0 < l_altNum lc \<or> kg")
          case go: True
          from step go obtain tg s1 where
            p: "pickTarget cfg fr lc s = Inr (tg, s1)"
            by (cases "pickTarget cfg fr lc s") auto
          from step go p obtain r2 s2 where a: "attempt cfg e fr tg s1 = Inr (r2, s2)"
            by (cases "attempt cfg e fr tg s1") auto
          have ra: "R cfg e s1 r2 s2"
          proof (cases "t_i tg + 1 = qlen cfg")
            case True
            with a show ?thesis using rp by (simp add: attempt_def)
          next
            case False
            with a "2.IH"(2) [OF dlt Branch go p refl False] show ?thesis
              by (simp add: attempt_def)
          qed
          show ?thesis
          proof (cases r2)
            case True
            with step go p a have "ret = True \<and> s' = s2" by simp
            with ra True r_pre [OF pk [OF p]] show ?thesis by simp
          next
            case r2f: False
            obtain lc2 s3 where f: "failUpdate fr lc tg s2 = (lc2, s3)"
              by (cases "failUpdate fr lc tg s2") auto
            have r13: "R cfg e s1 False s3"
              using r_seq [OF _ r_false [OF fu [OF f]]] ra r2f by simp
            have r03: "R cfg e s False s3" using r_pre [OF pk [OF p] r13] .
            show ?thesis
            proof (cases "l_altNum lc2 = 0")
              case True
              with step go p a r2f f have "ret = False \<and> s' = s3" by simp
              with r03 show ?thesis by simp
            next
              case False
              with step go p a r2f f have
                "bt_iter cfg e fr (if l_eligibleNum lc2 = 0 then rescan cfg s3 fr lc2 else lc2)
                   (Branch False) s3 = Inr (ret, s')"
                by simp
              moreover have "\<not> r2" using r2f by simp
              ultimately have "R cfg e s3 ret s'"
                using "2.IH"(3) [OF dlt Branch go p refl a [unfolded attempt_def] refl _ f [symmetric] False]
                by simp
              with r03 show ?thesis by (rule r_seq)
            qed
          qed
        next
          case stop: False
          show ?thesis
          proof (cases "l_top lc = l_bot lc \<and> l_altNum lc = 0")
            case True
            with step stop have "ret = False \<and> s' = s" by simp
            then show ?thesis using r_false [OF g_refl] by simp
          next
            case False
            with step stop have
              "bt_iter cfg e fr (lc\<lparr>l_d := l_d lc + 1\<rparr>) Advance
                 (s\<lparr>chars := (chars s)(l_d lc := dnaToChar (qry s ! (qlen cfg - l_d lc - 1)))\<rparr>)
               = Inr (ret, s')"
              by simp
            with "2.IH"(4) [OF dlt Branch stop False] have
              "R cfg e (s\<lparr>chars := (chars s)(l_d lc := dnaToChar (qry s ! (qlen cfg - l_d lc - 1)))\<rparr>) ret s'"
              by simp
            with ch show ?thesis by (rule r_pre)
          qed
        qed
      qed
    qed
  qed
qed


lemma bt_hoare:
  fixes Pre :: "BtConfig \<Rightarrow> Ebwt \<Rightarrow> Frame \<Rightarrow> BtState \<Rightarrow> bool"
    and I :: "BtConfig \<Rightarrow> Ebwt \<Rightarrow> Frame \<Rightarrow> BtState \<Rightarrow> Locals \<Rightarrow> BtState \<Rightarrow> bool"
    and R :: "BtConfig \<Rightarrow> Ebwt \<Rightarrow> Frame \<Rightarrow> BtState \<Rightarrow> bt_result \<Rightarrow> bool"
  assumes h_deep: "\<And>cfg e fr s. Pre cfg e fr s \<Longrightarrow> maxStackDepth cfg < f_stackDepth fr
            \<Longrightarrow> R cfg e fr s (Inl StackTooDeep)"
    and h_hh: "\<And>cfg e fr s. Pre cfg e fr s \<Longrightarrow> R cfg e fr s (Inr (False, s))"
    and h_enter: "\<And>cfg e fr s. Pre cfg e fr s \<Longrightarrow> \<not> maxStackDepth cfg < f_stackDepth fr
            \<Longrightarrow> I cfg e fr s (initLocals fr) s"
    and h_fin: "\<And>cfg e fr s0 lc s. I cfg e fr s0 lc s \<Longrightarrow> \<not> l_d lc < qlen cfg
            \<Longrightarrow> R cfg e fr s0 (finish cfg e fr lc s)"
    and h_slice: "\<And>cfg e fr s0 lc s. I cfg e fr s0 lc s \<Longrightarrow> l_d lc < qlen cfg
            \<Longrightarrow> \<not> sliceOK cfg fr (l_d lc) \<Longrightarrow> R cfg e fr s0 (Inl (sliceError cfg fr (l_d lc)))"
    and h_match: "\<And>cfg e fr s0 lc s lc1 s1 kg. I cfg e fr s0 lc s \<Longrightarrow> l_d lc < qlen cfg
            \<Longrightarrow> sliceOK cfg fr (l_d lc) \<Longrightarrow> matchStep cfg e fr lc s = (lc1, s1, kg)
            \<Longrightarrow> I cfg e fr s0 lc1 s1"
    and h_pickerr: "\<And>cfg e fr s0 lc s err. I cfg e fr s0 lc s \<Longrightarrow> l_d lc < qlen cfg
            \<Longrightarrow> pickTarget cfg fr lc s = Inl err \<Longrightarrow> R cfg e fr s0 (Inl err)"
    and h_pick: "\<And>cfg e fr s0 lc s tg s1. I cfg e fr s0 lc s \<Longrightarrow> l_d lc < qlen cfg
            \<Longrightarrow> pickTarget cfg fr lc s = Inr (tg, s1) \<Longrightarrow> Pre cfg e (childFrame cfg fr tg) s1"
    and h_report: "\<And>cfg e fr s0 lc s tg s1. I cfg e fr s0 lc s \<Longrightarrow> l_d lc < qlen cfg
            \<Longrightarrow> pickTarget cfg fr lc s = Inr (tg, s1) \<Longrightarrow> t_i tg + 1 = qlen cfg
            \<Longrightarrow> R cfg e (childFrame cfg fr tg) s1
                  (report cfg e (f_stackDepth fr + 1) (t_top tg) (t_bot tg) s1)"
    and h_err: "\<And>cfg e fr s0 lc s tg s1 err. I cfg e fr s0 lc s \<Longrightarrow> l_d lc < qlen cfg
            \<Longrightarrow> pickTarget cfg fr lc s = Inr (tg, s1)
            \<Longrightarrow> R cfg e (childFrame cfg fr tg) s1 (Inl err) \<Longrightarrow> R cfg e fr s0 (Inl err)"
    and h_true: "\<And>cfg e fr s0 lc s tg s1 s2. I cfg e fr s0 lc s \<Longrightarrow> l_d lc < qlen cfg
            \<Longrightarrow> pickTarget cfg fr lc s = Inr (tg, s1)
            \<Longrightarrow> R cfg e (childFrame cfg fr tg) s1 (Inr (True, s2))
            \<Longrightarrow> R cfg e fr s0 (Inr (True, s2))"
    and h_false: "\<And>cfg e fr s0 lc s tg s1 s2 lc2 s3. I cfg e fr s0 lc s \<Longrightarrow> l_d lc < qlen cfg
            \<Longrightarrow> pickTarget cfg fr lc s = Inr (tg, s1)
            \<Longrightarrow> R cfg e (childFrame cfg fr tg) s1 (Inr (False, s2))
            \<Longrightarrow> failUpdate fr lc tg s2 = (lc2, s3)
            \<Longrightarrow> R cfg e fr s0 (Inr (False, s3))
                \<and> I cfg e fr s0 (if l_eligibleNum lc2 = 0 then rescan cfg s3 fr lc2 else lc2) s3"
    and h_stop: "\<And>cfg e fr s0 lc s. I cfg e fr s0 lc s \<Longrightarrow> R cfg e fr s0 (Inr (False, s))"
    and h_next: "\<And>cfg e fr s0 lc s c. I cfg e fr s0 lc s \<Longrightarrow> l_d lc < qlen cfg
            \<Longrightarrow> I cfg e fr s0 (lc\<lparr>l_d := l_d lc + 1\<rparr>) (s\<lparr>chars := (chars s)(l_d lc := c)\<rparr>)"
  shows "Pre cfg e fr s \<longrightarrow> R cfg e fr s (bt_frame cfg e fr s)"
    and "(\<forall>s0. I cfg e fr s0 lc s \<longrightarrow> R cfg e fr s0 (bt_iter cfg e fr lc ph s))"
proof (induction cfg e fr s and cfg e fr lc ph s rule: bt_frame_bt_iter.induct)
  case (1 cfg e fr s)
  show ?case
  proof
    assume pre: "Pre cfg e fr s"
    show "R cfg e fr s (bt_frame cfg e fr s)"
    proof (cases "maxStackDepth cfg < f_stackDepth fr")
      case True
      with h_deep [OF pre] show ?thesis by (simp add: bt_frame.simps)
    next
      case nd: False
      show ?thesis
      proof (cases "hhReject cfg fr")
        case True
        with nd h_hh [OF pre] show ?thesis by (simp add: bt_frame.simps)
      next
        case False
        from "1" [OF nd False] h_enter [OF pre nd] nd False show ?thesis
          by (simp add: bt_frame.simps)
      qed
    qed
  qed
next
  case (2 cfg e fr lc ph s)
  show ?case
  proof (intro allI impI)
    fix s0
    assume inv: "I cfg e fr s0 lc s"
    show "R cfg e fr s0 (bt_iter cfg e fr lc ph s)"
    proof (cases "l_d lc < qlen cfg")
      case False
      with h_fin [OF inv] show ?thesis by (simp add: bt_iter_done)
    next
      case dlt: True
      show ?thesis
      proof (cases ph)
        case Advance
        show ?thesis
        proof (cases "sliceOK cfg fr (l_d lc)")
          case False
          with h_slice [OF inv dlt] show ?thesis
            by (simp add: Advance bt_iter_Advance [OF dlt])
        next
          case ok: True
          obtain lc1 s1 kg where m: "matchStep cfg e fr lc s = (lc1, s1, kg)"
            by (cases "matchStep cfg e fr lc s") auto
          have ok': "\<not> \<not> sliceOK cfg fr (l_d lc)" using ok by simp
          from "2.IH"(1) [OF dlt Advance ok' m [symmetric] refl] h_match [OF inv dlt ok m]
          have "R cfg e fr s0 (bt_iter cfg e fr lc1 (Branch kg) s1)" by simp
          with ok m show ?thesis by (simp add: Advance bt_iter_Advance [OF dlt])
        qed
      next
        case (Branch kg)
        note step = bt_iter_Branch [OF dlt]
        show ?thesis
        proof (cases "l_top lc = l_bot lc \<and> 0 < l_altNum lc \<or> kg")
          case go: True
          show ?thesis
          proof (cases "pickTarget cfg fr lc s")
            case (Inl err)
            with h_pickerr [OF inv dlt Inl] go show ?thesis by (simp add: Branch step)
          next
            case (Inr b)
            obtain tg s1 where b: "b = (tg, s1)" by (cases b) auto
            note p = Inr [unfolded b]
            have ra: "R cfg e (childFrame cfg fr tg) s1 (attempt cfg e fr tg s1)"
            proof (cases "t_i tg + 1 = qlen cfg")
              case True
              with h_report [OF inv dlt p True] show ?thesis by (simp add: attempt_def)
            next
              case False
              from "2.IH"(2) [OF dlt Branch go Inr b [symmetric] False] h_pick [OF inv dlt p] False
              show ?thesis by (simp add: attempt_def)
            qed
            show ?thesis
            proof (cases "attempt cfg e fr tg s1")
              case (Inl err)
              with h_err [OF inv dlt p] ra go p show ?thesis by (simp add: Branch step)
            next
              case ar: (Inr c)
              obtain r2 s2 where c: "c = (r2, s2)" by (cases c) auto
              note a = ar [unfolded c]
              show ?thesis
              proof (cases r2)
                case True
                with h_true [OF inv dlt p] ra a go p show ?thesis by (simp add: Branch step)
              next
                case r2f: False
                obtain lc2 s3 where f: "failUpdate fr lc tg s2 = (lc2, s3)"
                  by (cases "failUpdate fr lc tg s2") auto
                from ra a r2f have "R cfg e (childFrame cfg fr tg) s1 (Inr (False, s2))" by simp
                note hf = h_false [OF inv dlt p this f]
                show ?thesis
                proof (cases "l_altNum lc2 = 0")
                  case True
                  with hf a r2f f go p show ?thesis by (simp add: Branch step)
                next
                  case False
                  have nr: "\<not> r2" using r2f by simp
                  from "2.IH"(3) [OF dlt Branch go Inr b [symmetric] a [unfolded attempt_def, folded c] c [symmetric] nr f [symmetric] False] hf
                  have "R cfg e fr s0
                          (bt_iter cfg e fr (if l_eligibleNum lc2 = 0 then rescan cfg s3 fr lc2 else lc2)
                             (Branch False) s3)" by simp
                  with False a r2f f go p show ?thesis by (simp add: Branch step)
                qed
              qed
            qed
          qed
        next
          case stop: False
          show ?thesis
          proof (cases "l_top lc = l_bot lc \<and> l_altNum lc = 0")
            case True
            with h_stop [OF inv] stop show ?thesis
              by (auto simp: Branch step word_greater_zero_iff)
          next
            case False
            from "2.IH"(4) [OF dlt Branch stop False] h_next [OF inv dlt]
            have "R cfg e fr s0
                    (bt_iter cfg e fr (lc\<lparr>l_d := l_d lc + 1\<rparr>) Advance
                       (s\<lparr>chars := (chars s)(l_d lc := dnaToChar (qry s ! (qlen cfg - l_d lc - 1)))\<rparr>))"
              by simp
            with False stop show ?thesis
              by (auto simp: Branch step word_greater_zero_iff)
          qed
        qed
      qed
    qed
  qed
qed

subsection \<open>Entry points\<close>

text \<open>
  \<^verbatim>\<open>backtrack(ham)\<close> (lines 237-289) looks up the last \<^verbatim>\<open>ftabChars\<close> characters of the read
  in the ftab when that does not jump over a revisitable position; \<open>ftabKey\<close> is the key it
  builds (lines 247-254).  \<^verbatim>\<open>backtrack(depth, top, bot, iham)\<close> (lines 298-408) calls the
  recursive routine at stack depth 0 with the region bounds of the object and the whole
  arenas (line 323).  The assertions on the lengths at their entry are \<open>lengthsOK\<close>.
\<close>

definition ftabKey :: "nat list \<Rightarrow> nat \<Rightarrow> nat \<Rightarrow> u32" where
  "ftabKey q n fc =
     fold (\<lambda>i ftabOff. push_bit 2 ftabOff OR of_nat (q ! (n - i))) (rev [1 ..< fc])
       (of_nat (q ! (n - fc)))"

definition topFrame :: "BtConfig \<Rightarrow> nat \<Rightarrow> u32 \<Rightarrow> u32 \<Rightarrow> u32 \<Rightarrow> Frame" where
  "topFrame cfg depth top1 bot1 iham =
     \<lparr>f_stackDepth = 0, f_depth = depth, f_unrevOff = unrevOff cfg,
      f_oneRevOff = oneRevOff cfg, f_twoRevOff = twoRevOff cfg, f_top = top1, f_bot = bot1,
      f_ham = iham, f_iham = iham, f_pairs = 0, f_elims = 0\<rparr>"

definition lengthsOK :: "BtConfig \<Rightarrow> BtState \<Rightarrow> bool" where
  "lengthsOK cfg s = (0 < length (qry s) \<and> qlen cfg \<le> length (qry s) \<and> length (qry s) \<le> length (qual cfg))"

definition backtrack_at :: "BtConfig \<Rightarrow> Ebwt \<Rightarrow> nat \<Rightarrow> u32 \<Rightarrow> u32 \<Rightarrow> u32 \<Rightarrow> BtState \<Rightarrow> bt_result" where
  "backtrack_at cfg e depth top1 bot1 iham s =
     (if \<not> lengthsOK cfg s then Inl BadLengths
      else bt_frame cfg e (topFrame cfg depth top1 bot1 iham) s)"

definition backtrack :: "BtConfig \<Rightarrow> Ebwt \<Rightarrow> u32 \<Rightarrow> BtState \<Rightarrow> bt_result" where
  "backtrack cfg e ham s =
     (if \<not> lengthsOK cfg s then Inl BadLengths
      else if min (unrevOff cfg) (qlen cfg) \<ge> ftabChars e then
        (let ftabOff = ftabKey (qry s) (qlen cfg) (ftabChars e);
             top1 = ftabHi e ftabOff;
             bot1 = ftabLo e (ftabOff + 1)
         in if qlen cfg = ftabChars e \<and> bot1 > top1 then
              (if reportSeedlings cfg > 0 then backtrack_at cfg e 0 0 0 ham s
               else report cfg e 0 top1 bot1 s)
            else if bot1 > top1 then backtrack_at cfg e (ftabChars e) top1 bot1 ham s
            else Inr (False, s))
      else backtrack_at cfg e 0 0 0 ham s)"

text \<open>
  The constructor called with a read (lines 90-118): \<^verbatim>\<open>_qlen\<close> and \<^verbatim>\<open>_spread\<close> are the length of
  the read, the qualities default to 40 + 33, \<^verbatim>\<open>_5depth\<close> and \<^verbatim>\<open>_3depth\<close> are the bounds of
  the 1- and 2-revisitable regions (lines 78-79), \<^verbatim>\<open>_maxStackDepth\<close> is computed at line
  106 and sizes the two arenas, and the mutations are applied.
\<close>

definition construct ::
  "nat \<Rightarrow> nat \<Rightarrow> nat \<Rightarrow> u32 \<Rightarrow> nat \<Rightarrow> QueryMutation list option \<Rightarrow> bool \<Rightarrow> bool
     \<Rightarrow> (nat \<Rightarrow> u32) \<Rightarrow> nat list \<Rightarrow> u8 list \<Rightarrow> BtState \<Rightarrow> BtConfig \<times> BtState" where
  "construct unrev oneRev twoRev thresh nSeedlings ms one hh rng q ql mem =
     (let msd = length q - min unrev (length q) + 3 + 1;
          cfg = \<lparr>qlen = length q,
                 qual = (if ql = [] then replicate DEFAULT_SPREAD (40 + 33) else ql),
                 unrevOff = unrev, oneRevOff = oneRev, twoRevOff = twoRev,
                 qualThresh = thresh, reportSeedlings = nSeedlings, muts = ms,
                 halfAndHalf = hh, depth5 = oneRev, depth3 = twoRev,
                 spread = length q, maxStackDepth = msd, oneHit = one,
                 pairsSz = DEFAULT_SPREAD * msd * 8, elimsSz = DEFAULT_SPREAD * msd,
                 nextU32 = rng\<rparr>
      in (cfg, applyMutations cfg (mem\<lparr>qry := q, draws := 0\<rparr>)))"

text \<open>
  \<^verbatim>\<open>setQuery\<close> (lines 141-186).  It installs the new read, undoes the mutations in force
  (on the new read, lines 148-150), installs and applies the new ones, resets \<^verbatim>\<open>_qlen\<close>,
  \<^verbatim>\<open>_spread\<close> and the qualities, and recomputes \<^verbatim>\<open>_maxStackDepth\<close>; \<^verbatim>\<open>_pairs\<close> and \<^verbatim>\<open>_elims\<close>
  are allocated only \<^verbatim>\<open>if(_pairs == NULL)\<close>, \<^verbatim>\<open>if(_elims == NULL)\<close>, which the model reads as a
  size of 0; arenas that exist keep their size.
\<close>

definition setQuery ::
  "BtConfig \<Rightarrow> nat list \<Rightarrow> u8 list \<Rightarrow> QueryMutation list option \<Rightarrow> BtState
     \<Rightarrow> BtConfig \<times> BtState" where
  "setQuery cfg q ql ms s =
     (let s1 = undoMutations cfg (s\<lparr>qry := q\<rparr>);
          cfg1 = cfg\<lparr>muts := ms\<rparr>;
          s2 = applyMutations cfg1 s1;
          msd = length q - min (unrevOff cfg) (length q) + 3 + 1
      in (cfg1\<lparr>qlen := length q, spread := length q,
               qual := (if ql = [] then replicate DEFAULT_SPREAD (40 + 33) else ql),
               maxStackDepth := msd,
               pairsSz := (if pairsSz cfg = 0 then DEFAULT_SPREAD * msd * 8 else pairsSz cfg),
               elimsSz := (if elimsSz cfg = 0 then DEFAULT_SPREAD * msd else elimsSz cfg)\<rparr>, s2))"

subsection \<open>Frames the search can enter\<close>

text \<open>
  The frames with which the recursive \<^verbatim>\<open>backtrack\<close> can be called: the frame of the first
  call, made by \<^verbatim>\<open>backtrack(depth, top, bot, iham)\<close> at line 323 with the region bounds of
  the object, and the frame of the recursive call of line 800, made for a target that the
  selection loop of lines 695-745 has chosen in a frame that could itself be entered.  The
  locals and the state at which the target is chosen are left open, so this set contains
  every frame of every run.
\<close>

inductive callable :: "BtConfig \<Rightarrow> Frame \<Rightarrow> bool" for cfg where
  top: "callable cfg (topFrame cfg depth top1 bot1 iham)"
| child: "callable cfg fr \<Longrightarrow> pickTarget cfg fr lc s = Inr (tg, s1)
            \<Longrightarrow> callable cfg (childFrame cfg fr tg)"

subsection \<open>The quality budget\<close>

text \<open>
  The number of positions that \<^verbatim>\<open>report\<close> splices into \<^verbatim>\<open>_mms\<close> after the mismatches
  chosen by backtracking (lines 1144-1148): one for each mutation in force.
\<close>

definition nmuts :: "BtConfig \<Rightarrow> nat" where
  "nmuts cfg = (case muts cfg of None \<Rightarrow> 0 | Some ms \<Rightarrow> length ms)"

text \<open>
  The mismatch list of a hit without the spliced mutation positions, that is the entries
  \<^verbatim>\<open>_mms[0 .. stackDepth)\<close> written by the search itself.
\<close>

definition backtrackedMms :: "BtConfig \<Rightarrow> Hit \<Rightarrow> u32 list" where
  "backtrackedMms cfg h = take (length (h_mms h) - nmuts cfg) (h_mms h)"

text \<open>The sum of \<^verbatim>\<open>QUAL(pos)\<close> over a list of read offsets.\<close>

definition qualSum :: "BtConfig \<Rightarrow> u32 list \<Rightarrow> nat" where
  "qualSum cfg ps = sum_list (map (\<lambda>p. unat (QUAL cfg (unat p))) ps)"

text \<open>
  A hit keeps the budget: the distance \<^verbatim>\<open>iham\<close> the call started with plus the qualities
  of the mismatches chosen by backtracking is at most \<^verbatim>\<open>_qualThresh\<close>.
\<close>

definition hitOK :: "BtConfig \<Rightarrow> u32 \<Rightarrow> Hit \<Rightarrow> bool" where
  "hitOK cfg iham h = (unat iham + qualSum cfg (backtrackedMms cfg h) \<le> unat (qualThresh cfg))"

text \<open>
  The sums of the source are sums of \<^verbatim>\<open>uint32_t\<close>: \<^verbatim>\<open>ham + q <= _qualThresh\<close> means what it
  says only when the addition does not wrap around, which holds when the threshold leaves
  room for one quality; \<^verbatim>\<open>_qlen\<close> is itself a \<^verbatim>\<open>uint32_t\<close>.
\<close>

definition budgetOK :: "BtConfig \<Rightarrow> bool" where
  "budgetOK cfg = (unat (qualThresh cfg) + 255 < 2 ^ 32 \<and> qlen cfg < 2 ^ 32)"

text \<open>
  The invariants of the search: the \<^verbatim>\<open>ham\<close> of a frame is \<^verbatim>\<open>iham\<close> plus the qualities of the
  mismatches recorded below its stack position and is within the threshold
  (\<^verbatim>\<open>assert_leq(ham, _qualThresh)\<close>, line 439); \<^verbatim>\<open>lowAltQual\<close> is \<^verbatim>\<open>0xff\<close> or the quality of
  an alternative, so that \<^verbatim>\<open>ham + lowAltQual\<close> is within the threshold.
\<close>

definition hamInv :: "BtConfig \<Rightarrow> Frame \<Rightarrow> BtState \<Rightarrow> bool" where
  "hamInv cfg fr s =
     (unat (f_ham fr) = unat (f_iham fr) + qualSum cfg (mmsList s (f_stackDepth fr))
      \<and> f_ham fr \<le> qualThresh cfg)"

definition lowInv :: "BtConfig \<Rightarrow> Frame \<Rightarrow> Locals \<Rightarrow> bool" where
  "lowInv cfg fr lc =
     (l_lowAltQual lc = 0xff
      \<or> unat (f_ham fr) + unat (l_lowAltQual lc) \<le> unat (qualThresh cfg))"

text \<open>
  What a frame at stack position \<open>k\<close> leaves behind: the entries of \<^verbatim>\<open>_mms\<close> below \<open>k\<close>
  are unchanged and every hit added keeps the budget.
\<close>

definition budgetPost :: "BtConfig \<Rightarrow> u32 \<Rightarrow> nat \<Rightarrow> BtState \<Rightarrow> BtState \<Rightarrow> bool" where
  "budgetPost cfg iham k s s' =
     ((\<forall>n < k. mms s' n = mms s n)
      \<and> (\<exists>new. hits s' = hits s @ new \<and> (\<forall>h \<in> set new. hitOK cfg iham h)))"

definition budgetPre :: "BtConfig \<Rightarrow> Ebwt \<Rightarrow> Frame \<Rightarrow> BtState \<Rightarrow> bool" where
  "budgetPre cfg e fr s = (budgetOK cfg \<and> hamInv cfg fr s)"

definition budgetInv ::
  "BtConfig \<Rightarrow> Ebwt \<Rightarrow> Frame \<Rightarrow> BtState \<Rightarrow> Locals \<Rightarrow> BtState \<Rightarrow> bool" where
  "budgetInv cfg e fr s0 lc s =
     (budgetOK cfg \<and> hamInv cfg fr s \<and> lowInv cfg fr lc
      \<and> budgetPost cfg (f_iham fr) (f_stackDepth fr) s0 s)"

definition budgetRes :: "BtConfig \<Rightarrow> Ebwt \<Rightarrow> Frame \<Rightarrow> BtState \<Rightarrow> bt_result \<Rightarrow> bool" where
  "budgetRes cfg e fr s res =
     (\<forall>ret s'. res = Inr (ret, s') \<longrightarrow> budgetPost cfg (f_iham fr) (f_stackDepth fr) s s')"

subsection \<open>The seedlings of a search\<close>









subsection \<open>A small index for examples\<close>

text \<open>
  An index over a short text for running the search: the rows are the sorted suffixes
  (the empty suffix first), \<open>bwtColumn\<close> the character before each suffix, \<open>naiveFchr c\<close>
  the first row of the suffixes that start with \<open>c\<close>, and \<open>tableLF\<close> the LF mapping computed
  by counting in the column.  \<open>tableEbwt\<close> takes the two tables themselves; its ftab is
  longer than any read used here, so that a search starts at depth 0, and its sink takes
  every hit.
\<close>

definition suffixRows :: "nat list \<Rightarrow> nat list list" where
  "suffixRows t = sort (map (\<lambda>i. drop i t) [0 ..< Suc (length t)])"

definition bwtColumn :: "nat list \<Rightarrow> nat option list" where
  "bwtColumn t =
     map (\<lambda>sfx. if length sfx < length t then Some (t ! (length t - length sfx - 1)) else None)
       (suffixRows t)"

definition naiveFchr :: "nat list \<Rightarrow> nat \<Rightarrow> u32" where
  "naiveFchr t c = of_nat (1 + length (filter (\<lambda>x. x < c) t))"

definition tableLF :: "u32 list \<Rightarrow> nat option list \<Rightarrow> u32 \<Rightarrow> nat \<Rightarrow> u32" where
  "tableLF fc col row c =
     fc ! c + of_nat (length (filter (\<lambda>x. x = Some c) (take (unat row) col)))"

definition tableEbwt :: "u32 list \<Rightarrow> nat option list \<Rightarrow> Ebwt" where
  "tableEbwt fc col =
     \<lparr>ftabChars = 10, fchr = (\<lambda>c. fc ! c), ftabHi = (\<lambda>k. 0), ftabLo = (\<lambda>k. 0),
      mapLF = tableLF fc col,
      mapLFEx = (\<lambda>top1 bot1. map (tableLF fc col top1) [0, 1, 2, 3]
                               @ map (tableLF fc col bot1) [0, 1, 2, 3]),
      reportChaseOne = (\<lambda>q ms row. True)\<rparr>"

definition textEbwt :: "nat list \<Rightarrow> Ebwt" where
  "textEbwt t = tableEbwt (map (naiveFchr t) [0, 1, 2, 3, 4]) (bwtColumn t)"

definition blankState :: BtState where
  "blankState = \<lparr>qry = [], pairs = (\<lambda>n. 0), elims = (\<lambda>n. 0), mms = (\<lambda>n. 0),
                  chars = (\<lambda>n. CHR ''?''), seedlings = [], draws = 0, hits = []\<rparr>"

subsection \<open>A half-and-half search for examples\<close>

text \<open>
  The read \<^verbatim>\<open>AAAA\<close> with qualities 10, 10, 5, 10, searched in the texts \<^verbatim>\<open>ACCA\<close> and
  \<^verbatim>\<open>CAAAA\<close> in half-and-half mode with the region bounds 0, 2, 4 (so \<^verbatim>\<open>_5depth = 2\<close>,
  \<^verbatim>\<open>_3depth = 4\<close>) and the quality budget 100.
  \<^verbatim>\<open>exHHAt\<close> holds the locals and the state of the first frame when its matching loop
  has run twice (lines 513-676 for depth 0, then for depth 1), which is where the first
  backtrack target is chosen.
\<close>

definition exHH :: BtConfig where
  "exHH = fst (construct 0 2 4 100 0 None True True (\<lambda>n. 0) [0,0,0,0] [43,43,38,43] blankState)"

definition exHHRead :: BtState where
  "exHHRead = snd (construct 0 2 4 100 0 None True True (\<lambda>n. 0) [0,0,0,0] [43,43,38,43] blankState)"

definition exACCA :: Ebwt where
  "exACCA = tableEbwt [1, 3, 5, 5, 5] [Some 0, Some 1, None, Some 1, Some 0]"

definition exCAAAA :: Ebwt where
  "exCAAAA = tableEbwt [1, 5, 6, 6, 6] [Some 0, Some 0, Some 0, Some 0, Some 1, None]"

definition exHHTop :: Frame where
  "exHHTop = topFrame exHH 0 0 0 0"

definition exHHAt :: "Locals \<times> BtState" where
  "exHHAt =
     (case matchStep exHH exACCA exHHTop (initLocals exHHTop) exHHRead of (lc1, s1, kg1) \<Rightarrow>
        case matchStep exHH exACCA exHHTop (lc1\<lparr>l_d := 1\<rparr>)
               (s1\<lparr>chars := (chars s1)(0 := dnaToChar (qry s1 ! 3))\<rparr>) of
          (lc2, s2, kg2) \<Rightarrow> (lc2, s2))"

subsection \<open>A search after a change of read\<close>

text \<open>
  A backtracker built on the one-base read \<^verbatim>\<open>A\<close> with an unrevisitable region of one base
  (\<^verbatim>\<open>_maxStackDepth = 4\<close>, arenas of \<open>64 * 4 * 8\<close> words and \<open>64 * 4\<close> bytes), then given by
  \<^verbatim>\<open>setQuery\<close> a read of 64 bases \<^verbatim>\<open>A\<close>, and the index of the text \<^verbatim>\<open>CCCCA\<close>.
\<close>

definition exShort :: "BtConfig \<times> BtState" where
  "exShort = construct 1 1 1 255 0 None True False (\<lambda>n. 0) [0] [] blankState"

definition exLong :: "BtConfig \<times> BtState" where
  "exLong = setQuery (fst exShort) (replicate 64 0) [] None (snd exShort)"

definition exCCCCA :: Ebwt where
  "exCCCCA = tableEbwt [1, 2, 6, 6, 6] [Some 0, Some 1, Some 1, Some 1, Some 1, None]"

subsection \<open>A search for seedlings\<close>


definition exCC :: Ebwt where
  "exCC = tableEbwt [1, 1, 3, 3, 3] [Some 1, Some 1, None]"

subsection \<open>A small reference for examples\<close>

text \<open>
  One reference sequence \<^verbatim>\<open>CANG\<close>: two records, the first with the two unambiguous bases
  \<^verbatim>\<open>CA\<close>, the second with one ambiguous base before the single base \<^verbatim>\<open>G\<close>.  \<^verbatim>\<open>exF3\<close> is the
  content of the record file (sentinel 1, two records), \<^verbatim>\<open>exF4\<close> the packed bases
  (C = 1 in bits 0-1, A = 0 in bits 2-3, G = 2 in bits 4-5), \<^verbatim>\<open>exStore\<close> the object the
  constructor builds from them.
\<close>

definition exF3 :: "u8 list" where
  "exF3 = [1,0,0,0, 2,0,0,0, 0,0,0,0, 2,0,0,0, 1, 1,0,0,0, 1,0,0,0, 0]"

definition exF4 :: "u8 list" where
  "exF4 = [0x21]"

definition exStore :: BitPairReference where
  "exStore = \<lparr>recs = [\<lparr>off = 0, len = 2, first = True\<rparr>, \<lparr>off = 1, len = 1, first = False\<rparr>],
     refLens = [4], refOffs = [0, 3], refRecOffs = [0, 2], buf = [0x21], bufSz = 3,
     nrefs = 1, loaded = True\<rparr>"

text \<open>
  A record file whose first word is 2, neither 1 nor \<^verbatim>\<open>0x1000000\<close>; the words after it are
  written big-endian (one record, \<^verbatim>\<open>off = 0\<close>, \<^verbatim>\<open>len = 2\<close>, \<^verbatim>\<open>first = 1\<close>).
\<close>

definition exF3big :: "u8 list" where
  "exF3big = [2,0,0,0, 0,0,0,1, 0,0,0,0, 0,0,0,2, 1]"

section \<open>Properties\<close>

text \<open>
  C10.  For every position \<open>k\<close> the quality \<^verbatim>\<open>QUAL(k)\<close> that the budget and the eligibility
  computations use is, read as a number, the raw byte \<^verbatim>\<open>(*_qual)[k]\<close> minus 33 when that byte
  is at least 33, and 0 otherwise: a byte below 33 is clamped to 0, the subtraction of
  8-bit values never wraps around.
\<close>

theorem C10_QUAL_clamped:
  "unat (QUAL cfg k) = (if 33 \<le> unat (qual cfg ! k) then unat (qual cfg ! k) - 33 else 0)"
proof (cases "33 \<le> qual cfg ! k")
  case True
  then have "unat (qual cfg ! k - 33) = unat (qual cfg ! k) - 33"
    by (simp add: unat_sub)
  with True show ?thesis
    by (simp add: QUAL_def QUAL2_def word_le_nat_alt)
next
  case False
  then show ?thesis
    by (simp add: QUAL_def QUAL2_def word_le_nat_alt)
qed

lemma QUAL_le: "unat (QUAL cfg k) \<le> 222"
proof -
  have "unat (qual cfg ! k) < 2 ^ LENGTH(8)" by (rule unsigned_less)
  then have "unat (qual cfg ! k) < 256" by simp
  then have "(if 33 \<le> unat (qual cfg ! k) then unat (qual cfg ! k) - 33 else 0) \<le> 222" by auto
  moreover have "unat (QUAL cfg k) = (if 33 \<le> unat (qual cfg ! k) then unat (qual cfg ! k) - 33 else 0)"
    by (simp add: QUAL_def QUAL2_def word_le_nat_alt unat_sub)
  ultimately show ?thesis by simp
qed

subsection \<open>What the steps leave alone\<close>

definition arenaOnly :: "BtState \<Rightarrow> BtState \<Rightarrow> bool" where
  "arenaOnly s s' =
     (qry s' = qry s \<and> mms s' = mms s \<and> chars s' = chars s \<and> seedlings s' = seedlings s
      \<and> draws s' = draws s \<and> hits s' = hits s)"

lemma arenaOnly_refl: "arenaOnly s s"
  by (simp add: arenaOnly_def)

lemma arenaOnly_trans: "arenaOnly a b \<Longrightarrow> arenaOnly b c \<Longrightarrow> arenaOnly a c"
  by (simp add: arenaOnly_def)

lemma arenaOnly_setElim: "arenaOnly s (setElim fr d v s)"
  by (simp add: arenaOnly_def setElim_def)

lemma arenaOnly_seedPairs: "arenaOnly s (seedPairs e fr s)"
  by (simp add: arenaOnly_def seedPairs_def)

lemma arenaOnly_fillPairs: "arenaOnly s (fillPairs e fr d t b s)"
  by (simp add: arenaOnly_def fillPairs_def)

lemma quartetStep_arenaOnly:
  "quartetStep fr d c q elig i (lc, ovr, s) = (lc', ovr', s') \<Longrightarrow> arenaOnly s s'"
  by (auto simp: quartetStep_def Let_def arenaOnly_refl arenaOnly_setElim split: if_splits)

lemma quartet_fold_arenaOnly:
  "fold (quartetStep fr d c q elig) js (lc, ovr, s) = (lc', ovr', s') \<Longrightarrow> arenaOnly s s'"
proof (induction js arbitrary: lc ovr s)
  case Nil
  then show ?case by (simp add: arenaOnly_refl)
next
  case (Cons j js)
  obtain lc1 ovr1 s1 where st: "quartetStep fr d c q elig j (lc, ovr, s) = (lc1, ovr1, s1)"
    by (cases "quartetStep fr d c q elig j (lc, ovr, s)") auto
  with Cons.prems have "fold (quartetStep fr d c q elig) js (lc1, ovr1, s1) = (lc', ovr', s')"
    by simp
  from Cons.IH [OF this] quartetStep_arenaOnly [OF st] show ?case
    by (rule arenaOnly_trans [rotated])
qed

lemma quartet_arenaOnly:
  "quartet fr d c q elig (lc, ovr, s) = (lc', ovr', s') \<Longrightarrow> arenaOnly s s'"
  unfolding quartet_def by (rule quartet_fold_arenaOnly)

text \<open>All of a match step but the seedling it may report.\<close>

lemma keepGoing_state:
  "keepGoing cfg fr lc s = (kg, s') \<Longrightarrow>
   s' = s \<or> (reportSeedlings cfg > 0 \<and> s' = reportSeedling cfg (f_stackDepth fr) s)"
  by (auto simp: keepGoing_def split: if_splits)

lemma materialize_arenaOnly: "materialize e fr lc alt c s = (lc', s') \<Longrightarrow> arenaOnly s s'"
  by (auto simp: materialize_def Let_def arenaOnly_refl arenaOnly_seedPairs arenaOnly_fillPairs
           split: if_splits)

lemma matchStep_state:
  assumes "matchStep cfg e fr lc s = (lc', s', kg)"
  shows "\<exists>s1. arenaOnly s s1 \<and>
           (s' = s1 \<or> (reportSeedlings cfg > 0 \<and> s' = reportSeedling cfg (f_stackDepth fr) s1))"
proof -
  obtain lc1 s1 where m: "materialize e fr lc (curIsAlternative cfg fr (l_d lc))
      (qry s ! (qlen cfg - l_d lc - 1)) s = (lc1, s1)"
    by (cases "materialize e fr lc (curIsAlternative cfg fr (l_d lc)) (qry s ! (qlen cfg - l_d lc - 1)) s") auto
  from assms m obtain lc2 ovr2 s3 where
    k: "keepGoing cfg fr lc2 s3 = (kg, s')" and
    a3: "arenaOnly (setElim fr (l_d lc) (bitOf (qry s ! (qlen cfg - l_d lc - 1))) s1) s3"
    by (auto simp: matchStep_def Let_def arenaOnly_refl split: prod.splits if_splits
             dest: quartet_arenaOnly)
  have "arenaOnly s s3"
    using materialize_arenaOnly [OF m] arenaOnly_setElim a3 by (blast intro: arenaOnly_trans)
  with keepGoing_state [OF k] show ?thesis by blast
qed

lemma reportSeedling_fields:
  "qry (reportSeedling cfg k s) = qry s \<and> mms (reportSeedling cfg k s) = mms s
   \<and> chars (reportSeedling cfg k s) = chars s \<and> draws (reportSeedling cfg k s) = draws s
   \<and> hits (reportSeedling cfg k s) = hits s \<and> pairs (reportSeedling cfg k s) = pairs s
   \<and> elims (reportSeedling cfg k s) = elims s"
  by (simp add: reportSeedling_def)

lemma matchStep_fields:
  assumes "matchStep cfg e fr lc s = (lc', s', kg)"
  shows "qry s' = qry s \<and> mms s' = mms s \<and> chars s' = chars s \<and> draws s' = draws s
         \<and> hits s' = hits s"
  using matchStep_state [OF assms] by (auto simp: arenaOnly_def reportSeedling_fields)

lemma pickTarget_fields:
  assumes "pickTarget cfg fr lc s = Inr (tg, s')"
  shows "qry s' = qry s \<and> hits s' = hits s \<and> seedlings s' = seedlings s
         \<and> pairs s' = pairs s \<and> elims s' = elims s
         \<and> mms s' = (mms s)(f_stackDepth fr := of_nat (t_icur tg))
         \<and> t_icur tg = qlen cfg - t_i tg - 1"
  using assms
  by (auto simp: pickTarget_def Let_def split: if_splits option.splits)

lemma failUpdate_fields:
  assumes "failUpdate fr lc tg s = (lc', s')"
  shows "qry s' = qry s \<and> hits s' = hits s \<and> seedlings s' = seedlings s
         \<and> mms s' = mms s \<and> draws s' = draws s \<and> pairs s' = pairs s"
  using assms by (auto simp: failUpdate_def Let_def setElim_def)

subsection \<open>Hits handed to the sink\<close>

lemma chaseRows_accepts: "chaseRows acc r b sp i n = Some ri \<Longrightarrow> acc ri"
  by (induction n arbitrary: i) (auto simp: Let_def split: if_splits)

definition oneHitPost :: "Ebwt \<Rightarrow> BtState \<Rightarrow> bool \<Rightarrow> BtState \<Rightarrow> bool" where
  "oneHitPost e s ret s' =
     (if ret then (\<exists>h. hits s' = hits s @ [h] \<and> reportChaseOne e (h_qry h) (h_mms h) (h_row h))
      else hits s' = hits s)"

lemma reportHit_oneHit:
  "reportHit cfg e k t b s = Inr (ret, s') \<Longrightarrow> oneHitPost e s ret s'"
  by (auto simp: reportHit_def oneHitPost_def Let_def split: if_splits option.splits
           dest: chaseRows_accepts)

lemma applyMutations_hits: "hits (applyMutations cfg s) = hits s"
  by (simp add: applyMutations_def split: option.splits)

lemma undoMutations_hits: "hits (undoMutations cfg s) = hits s"
  by (simp add: undoMutations_def split: option.splits)

lemma report_oneHit:
  assumes "report cfg e k t b s = Inr (ret, s')"
  shows "oneHitPost e s ret s'"
proof (cases "reportSeedlings cfg > 0")
  case True
  with assms show ?thesis by (auto simp: report_def oneHitPost_def reportSeedling_def)
next
  case False
  define s1 where "s1 = undoMutations cfg s"
  define s1' where "s1' = (case muts cfg of Some ms \<Rightarrow> s1\<lparr>mms := spliceMuts ms k (mms s1)\<rparr> | None \<Rightarrow> s1)"
  define k' where "k' = (case muts cfg of Some ms \<Rightarrow> k + length ms | None \<Rightarrow> k)"
  from assms False obtain s2 where rh: "reportHit cfg e k' t b s1' = Inr (ret, s2)"
    and s': "s' = applyMutations cfg s2"
    by (auto simp: report_def Let_def s1_def s1'_def k'_def split: option.splits sum.splits)
  have "hits s1' = hits s" by (simp add: s1'_def s1_def undoMutations_hits split: option.splits)
  with reportHit_oneHit [OF rh] s' show ?thesis
    by (auto simp: oneHitPost_def applyMutations_hits)
qed

lemma bt_frame_oneHit:
  "bt_frame cfg e fr s = Inr (ret, s') \<Longrightarrow> oneHitPost e s ret s'"
proof -
  have "\<forall>ret s'. bt_frame cfg e fr s = Inr (ret, s') \<longrightarrow> oneHitPost e s ret s'"
  proof (rule bt_rule(1) [where G = "\<lambda>cfg e s s'. hits s' = hits s" and R = "\<lambda>cfg. oneHitPost"], goal_cases)
    case (3 cfg e fr lc s lc' s' kg)
    then show ?case by (simp add: matchStep_fields)
  next
    case (4 cfg e fr lc s tg s')
    then show ?case by (simp add: pickTarget_fields)
  next
    case (5 cfg e fr lc tg s lc' s')
    then show ?case by (simp add: failUpdate_fields)
  next
    case (7 cfg e k t b s ret s')
    then show ?case by (rule report_oneHit)
  qed (auto simp: oneHitPost_def)
  then show "bt_frame cfg e fr s = Inr (ret, s') \<Longrightarrow> oneHitPost e s ret s'" by blast
qed

lemma backtrack_disj:
  assumes "backtrack cfg e ham s = Inr (ret, s')"
  shows "lengthsOK cfg s \<and>
         ((\<exists>t b. report cfg e 0 t b s = Inr (ret, s'))
          \<or> (\<exists>depth t b. bt_frame cfg e (topFrame cfg depth t b ham) s = Inr (ret, s'))
          \<or> (\<not> ret \<and> s' = s))"
  using assms unfolding backtrack_def backtrack_at_def Let_def
  by (simp split: if_splits) blast+

lemma backtrack_cases:
  assumes "backtrack cfg e ham s = Inr (ret, s')"
  obtains (direct) t b where "report cfg e 0 t b s = Inr (ret, s')" and "lengthsOK cfg s"
  | (search) depth t b where "bt_frame cfg e (topFrame cfg depth t b ham) s = Inr (ret, s')"
      and "lengthsOK cfg s"
  | (closed) "\<not> ret" and "s' = s"
  using backtrack_disj [OF assms] by blast

text \<open>
  C6.  One call of \<^verbatim>\<open>backtrack(ham)\<close> hands the sink at most one hit.  If the call returns
  true, the hits of the sink are those it held before followed by exactly one new hit, and
  that hit is one that \<^verbatim>\<open>reportChaseOne\<close> accepted; if it returns false the sink holds what
  it held before.
\<close>

theorem C6_at_most_one_hit:
  assumes "backtrack cfg e ham s = Inr (ret, s')"
  shows "if ret then (\<exists>h. hits s' = hits s @ [h] \<and> reportChaseOne e (h_qry h) (h_mms h) (h_row h))
         else hits s' = hits s"
proof -
  have "oneHitPost e s ret s'"
    using assms
  proof (cases rule: backtrack_cases)
    case (direct t b)
    then show ?thesis by (simp add: report_oneHit)
  next
    case (search depth t b)
    then show ?thesis by (simp add: bt_frame_oneHit)
  next
    case closed
    then show ?thesis by (simp add: oneHitPost_def)
  qed
  then show ?thesis by (simp add: oneHitPost_def)
qed

subsection \<open>The read after a call\<close>

definition posSet :: "QueryMutation list \<Rightarrow> nat set" where
  "posSet ms = (\<lambda>m. unat (pos m)) ` set ms"

lemma applyMuts_length: "length (applyMuts ms q) = length q"
  by (induction ms arbitrary: q) simp_all

lemma undoMuts_length: "length (undoMuts ms q) = length q"
  by (induction ms arbitrary: q) simp_all

lemma applyMuts_outside: "i \<notin> posSet ms \<Longrightarrow> applyMuts ms q ! i = q ! i"
  by (induction ms arbitrary: q) (auto simp: posSet_def)

lemma undoMuts_outside: "i \<notin> posSet ms \<Longrightarrow> undoMuts ms q ! i = q ! i"
  by (induction ms arbitrary: q) (auto simp: posSet_def)

lemma applyMuts_agree:
  "length q = length q' \<Longrightarrow> (\<forall>i < length q. i \<notin> posSet ms \<longrightarrow> q ! i = q' ! i)
   \<Longrightarrow> applyMuts ms q = applyMuts ms q'"
proof (induction ms arbitrary: q q')
  case Nil
  then show ?case by (auto simp: posSet_def intro: nth_equalityI)
next
  case (Cons m ms)
  let ?p = "unat (pos m)" and ?v = "unat (newBase m)"
  have "applyMuts ms (q[?p := ?v]) = applyMuts ms (q'[?p := ?v])"
  proof (rule Cons.IH)
    show "length (q[?p := ?v]) = length (q'[?p := ?v])" using Cons.prems by simp
    show "\<forall>i<length (q[?p := ?v]). i \<notin> posSet ms \<longrightarrow> q[?p := ?v] ! i = q'[?p := ?v] ! i"
    proof (intro allI impI)
      fix i assume i: "i < length (q[?p := ?v])" and n: "i \<notin> posSet ms"
      show "q[?p := ?v] ! i = q'[?p := ?v] ! i"
      proof (cases "i = ?p")
        case True
        with i Cons.prems(1) show ?thesis by simp
      next
        case False
        with n have "i \<notin> posSet (m # ms)" by (simp add: posSet_def)
        with i Cons.prems False show ?thesis by simp
      qed
    qed
  qed
  then show ?case by simp
qed

lemma apply_undo: "applyMuts ms (undoMuts ms q) = applyMuts ms q"
  by (rule applyMuts_agree) (simp_all add: undoMuts_length undoMuts_outside)

lemma apply_apply: "applyMuts ms (applyMuts ms q) = applyMuts ms q"
  by (rule applyMuts_agree) (simp_all add: applyMuts_length applyMuts_outside)

definition mutsApplied :: "BtConfig \<Rightarrow> BtState \<Rightarrow> bool" where
  "mutsApplied cfg s = (qry (applyMutations cfg s) = qry s)"

lemma mutsApplied_applyMutations: "mutsApplied cfg (applyMutations cfg s0)"
  by (simp add: mutsApplied_def applyMutations_def apply_apply split: option.splits)

lemma mutsApplied_qry: "qry s' = qry s \<Longrightarrow> mutsApplied cfg s' = mutsApplied cfg s"
  by (simp add: mutsApplied_def applyMutations_def split: option.splits)

lemma reportHit_qry: "reportHit cfg e k t b s = Inr (ret, s') \<Longrightarrow> qry s' = qry s"
  by (auto simp: reportHit_def Let_def split: if_splits option.splits)

lemma report_qry:
  assumes "report cfg e k t b s = Inr (ret, s')" and "mutsApplied cfg s"
  shows "qry s' = qry s"
proof (cases "reportSeedlings cfg > 0")
  case True
  with assms show ?thesis by (auto simp: report_def reportSeedling_def)
next
  case False
  show ?thesis
  proof (cases "muts cfg")
    case None
    with assms False show ?thesis
      by (auto simp: report_def Let_def undoMutations_def applyMutations_def
               split: sum.splits dest: reportHit_qry)
  next
    case (Some ms)
    with assms(1) False obtain s2 where
      rh: "reportHit cfg e (k + length ms) t b
             ((undoMutations cfg s)\<lparr>mms := spliceMuts ms k (mms (undoMutations cfg s))\<rparr>)
           = Inr (ret, s2)"
      and s': "s' = applyMutations cfg s2"
      by (auto simp: report_def Let_def split: sum.splits)
    from reportHit_qry [OF rh] Some have "qry s2 = undoMuts ms (qry s)"
      by (simp add: undoMutations_def)
    with s' Some have "qry s' = applyMuts ms (qry s)"
      by (simp add: applyMutations_def apply_undo)
    with assms(2) Some show ?thesis
      by (simp add: mutsApplied_def applyMutations_def)
  qed
qed

lemma bt_frame_qry:
  "bt_frame cfg e fr s = Inr (ret, s') \<Longrightarrow> mutsApplied cfg s \<Longrightarrow> qry s' = qry s"
proof -
  have "\<forall>ret s'. bt_frame cfg e fr s = Inr (ret, s') \<longrightarrow> (mutsApplied cfg s \<longrightarrow> qry s' = qry s)"
  proof (rule bt_rule(1) [where G = "\<lambda>cfg e s s'. qry s' = qry s"
        and R = "\<lambda>cfg e s ret s'. mutsApplied cfg s \<longrightarrow> qry s' = qry s"], goal_cases)
    case (3 cfg e fr lc s lc' s' kg)
    then show ?case by (simp add: matchStep_fields)
  next
    case (4 cfg e fr lc s tg s')
    then show ?case by (simp add: pickTarget_fields)
  next
    case (5 cfg e fr lc tg s lc' s')
    then show ?case by (simp add: failUpdate_fields)
  next
    case (7 cfg e k t b s ret s')
    then show ?case by (auto dest: report_qry)
  next
    case (9 cfg e s s1 ret s')
    then show ?case using mutsApplied_qry [of s1 s cfg] by simp
  next
    case (10 cfg e s s1 ret s')
    then show ?case using mutsApplied_qry [of s1 s cfg] by auto
  qed auto
  then show "bt_frame cfg e fr s = Inr (ret, s') \<Longrightarrow> mutsApplied cfg s \<Longrightarrow> qry s' = qry s"
    by blast
qed

text \<open>
  C5.  Whatever the set of mutations, a call of \<^verbatim>\<open>backtrack(ham)\<close> on a read to which the
  mutations have been applied returns with the read buffer exactly as it was just before
  the call, whether it returns true or false: the mutations that \<^verbatim>\<open>report\<close> undoes are
  applied again before it returns.
\<close>

theorem C5_mutation_balance:
  assumes "backtrack cfg e ham (applyMutations cfg s0) = Inr (ret, s')"
  shows "qry s' = qry (applyMutations cfg s0)"
  using assms
proof (cases rule: backtrack_cases)
  case (direct t b)
  then show ?thesis by (simp add: report_qry mutsApplied_applyMutations)
next
  case (search depth t b)
  then show ?thesis by (simp add: bt_frame_qry mutsApplied_applyMutations)
next
  case closed
  then show ?thesis by simp
qed

text \<open>
  The read \<^verbatim>\<open>A\<close> with one mutation, of offset 0 from \<^verbatim>\<open>A\<close> to \<^verbatim>\<open>C\<close>, default qualities and
  \<^verbatim>\<open>_qualThresh = 0\<close>, and the index of the text \<^verbatim>\<open>C\<close>.
\<close>

definition exMutCfg :: BtConfig where
  "exMutCfg = fst (construct 0 0 0 0 0 (Some [\<lparr>pos = 0, oldBase = 0, newBase = 1\<rparr>]) True False
                     (\<lambda>n. 0) [0] [] blankState)"

definition exMutRead :: BtState where
  "exMutRead = blankState\<lparr>qry := [0]\<rparr>"

definition exIndexC :: Ebwt where
  "exIndexC = tableEbwt [1, 1, 2, 2, 2] [Some 1, None]"

lemma exIndexC_text: "textEbwt [1] = exIndexC"
proof -
  have "map (naiveFchr [1]) [0, 1, 2, 3, 4] = [1, 1, 2, 2, 2]" by code_simp
  moreover have "bwtColumn [1] = [Some 1, None]" by code_simp
  ultimately show ?thesis by (simp only: textEbwt_def exIndexC_def)
qed

theorem C5_witness:
  "\<exists>s'. backtrack exMutCfg exIndexC 0 (applyMutations exMutCfg exMutRead) = Inr (True, s')
        \<and> qry s' = [1] \<and> map h_qry (hits s') = [[0]]"
proof -
  have "case backtrack exMutCfg exIndexC 0 (applyMutations exMutCfg exMutRead) of
          Inl err \<Rightarrow> False | Inr (r, s') \<Rightarrow> r \<and> map h_qry (hits s') = [[0]]"
    by code_simp
  then obtain s' where run:
    "backtrack exMutCfg exIndexC 0 (applyMutations exMutCfg exMutRead) = Inr (True, s')"
    and h: "map h_qry (hits s') = [[0]]"
    by (auto split: sum.splits)
  have "qry (applyMutations exMutCfg exMutRead) = [1]" by code_simp
  with C5_mutation_balance [OF run] h run show ?thesis by simp
qed

theorem C6_witness:
  "\<exists>s' h. backtrack exMutCfg exIndexC 0 (applyMutations exMutCfg exMutRead) = Inr (True, s')
        \<and> hits s' = [h]"
proof -
  have "case backtrack exMutCfg exIndexC 0 (applyMutations exMutCfg exMutRead) of
          Inl err \<Rightarrow> False | Inr (r, s') \<Rightarrow> r"
    by code_simp
  then obtain s' where run:
    "backtrack exMutCfg exIndexC 0 (applyMutations exMutCfg exMutRead) = Inr (True, s')"
    by (auto split: sum.splits)
  have "hits (applyMutations exMutCfg exMutRead) = []" by code_simp
  with C6_at_most_one_hit [OF run] run show ?thesis by auto
qed

section \<open>Properties of the reference store\<close>

lemma exStore_loaded: "load ndebug (Some exF3) (Some exF4) = Returned exStore []"
  by (cases ndebug) (simp_all, code_simp+)

subsection \<open>getStretch against getBase\<close>

text \<open>
  C3.  \<^verbatim>\<open>getStretch(dest, tidx, toff, count)\<close> is meant to write, for each \<^verbatim>\<open>k < count\<close>, the
  value \<^verbatim>\<open>getBase(tidx, toff + k)\<close>.  On the reference \<^verbatim>\<open>CANG\<close>, loaded from its two files,
  the base at offset 3 is G: \<^verbatim>\<open>getBase(0, 3)\<close> returns 2.  \<^verbatim>\<open>getStretch(dest, 0, 3, 1)\<close> writes
  0 (A) instead: when it passes the first record it adds \<^verbatim>\<open>toff - off\<close> (here 3) to the
  buffer offset at line 238, where \<^verbatim>\<open>getBase\<close> adds the record's length (2) at line 203, so
  it reads the bit pair at buffer offset 4 and not the one at offset 2.
\<close>

theorem C3_getStretch_differs:
  "load True (Some exF3) (Some exF4) = Returned exStore []
   \<and> getBase exStore 0 3 = Some 2
   \<and> getStretch exStore 0 3 1 = Some [0]
   \<and> basesFrom exStore 0 3 1 = [Some 2]"
  by code_simp

subsection \<open>Failures of the load\<close>

text \<open>
  C9.  Every failure of the load, a sentinel word that is neither 1 nor \<^verbatim>\<open>0x1000000\<close>
  included, is to stop the load with a message for the user.  The record file \<^verbatim>\<open>exF3big\<close>
  begins with the word 2.  The constructor tests \<^verbatim>\<open>one != 1\<close> (line 53) and checks the other
  value only by \<^verbatim>\<open>assert_eq(0x1000000, one)\<close> (line 54): a build with \<^verbatim>\<open>NDEBUG\<close> sets
  \<^verbatim>\<open>swap\<close>, reads the rest of the file with the bytes of every word reversed, writes
  nothing to \<^verbatim>\<open>cerr\<close> and returns an object with \<^verbatim>\<open>loaded()\<close> true; a build with
  assertions is aborted by the assertion, without a message of the constructor.
\<close>

theorem C9_wrong_sentinel_silent:
  "fread_u32 exF3big = Some (2, drop 4 exF3big)
   \<and> continues_silently (load True (Some exF3big) (Some exF4))
   \<and> \<not> fatal_with_message (load True (Some exF3big) (Some exF4))
   \<and> \<not> stops_with_message (load True (Some exF3big) (Some exF4))
   \<and> load False (Some exF3big) (Some exF4) = AssertAbort"
  by code_simp

text \<open>
  The other failures are reported.  A record file that cannot be opened: a message, and
  the constructor returns with \<^verbatim>\<open>loaded()\<close> false (lines 38-45); the same for the bases file
  (lines 104-111) unless an assertion or a failed read stopped the run before.  The first
  word or the number of records cannot be read: a message and \<^verbatim>\<open>exit(1)\<close> (lines 49-52,
  59-62).  The file ends within the records: a message and \<^verbatim>\<open>exit(1)\<close>, by the model of the
  record reader.  The bases file holds fewer bytes than the buffer takes: a message and
  \<^verbatim>\<open>exit(1)\<close> (lines 117-120).  A wrong sentinel: the assertion, or with \<^verbatim>\<open>NDEBUG\<close> the same
  run as with the sentinel \<^verbatim>\<open>0x1000000\<close>.
\<close>

lemma load3_out:
  "load3 ndebug b3 = Inl out \<Longrightarrow> out = AssertAbort \<or> (\<exists>m. out = Exit1 [m])"
  by (auto simp: load3_def Let_def split: option.splits if_splits)

lemma load4_missing:
  "load4 ndebug v None = AssertAbort \<or> stops_with_message (load4 ndebug v None)"
  by (simp add: load4_def Let_def)

lemma load4_short:
  assumes "load4 ndebug v (Some b4) = Returned st []" and "n < length (buf st)"
  shows "load4 ndebug v (Some (take n b4)) = Exit1 [msg_short]"
proof -
  define nbytes where
    "nbytes = unat (drop_bit 2 (if lv_cumsz v AND 3 \<noteq> 0 then lv_cumsz v + (4 - (lv_cumsz v AND 3))
                                else lv_cumsz v))"
  from assms(1) have ok: "\<not> (unat (lv_nrefs v) \<noteq> length (lv_refLens v @ [lv_cumlen v]) \<and> \<not> ndebug)"
    and len: "\<not> length b4 < nbytes" and b: "buf st = take nbytes b4"
    by (auto simp: load4_def Let_def nbytes_def split: if_splits)
  from len b assms(2) have "n < nbytes" by simp
  with len have "length (take n b4) < nbytes" by simp
  with ok show ?thesis
    by (simp add: load4_def Let_def nbytes_def [symmetric])
qed

lemma fread_u32_sentinel: "fread_u32 ([0, 0, 0, 1] @ rest) = Some (0x1000000, rest)"
  by (simp add: fread_u32_def u32_of_bytes_def)

lemma load3_swapped:
  assumes "fread_u32 b3 = Some (one, rest)" and "one \<noteq> 1"
  shows "load3 True b3 = load3 True ([0, 0, 0, 1] @ rest)"
  using assms
  by (simp add: load3_def [of True b3] load3_def [of True "[0, 0, 0, 1] @ rest"]
        fread_u32_sentinel Let_def del: append.simps split: option.splits prod.splits)

lemma load_records_short:
  "length f < 9 * n \<Longrightarrow> load_records swap n f v = None"
proof (induction n arbitrary: f v)
  case 0
  then show ?case by simp
next
  case (Suc n)
  show ?case
  proof (cases "length f < 9")
    case True
    then show ?thesis by (simp add: readRefRecord_def)
  next
    case False
    with Suc.prems have "length (drop 9 f) < 9 * n" by simp
    from Suc.IH [OF this] False show ?thesis
      by (simp add: readRefRecord_def Let_def)
  qed
qed

lemma load3_nrecords:
  assumes "fread_u32 b3 = Some (one, rest)" and "one = 1 \<or> one = 0x1000000 \<or> ndebug"
    and "fread_u32 rest = None"
  shows "load3 ndebug b3 = Inl (Exit1 [msg_nrecords])"
  using assms by (auto simp: load3_def Let_def)

lemma load3_record:
  assumes "fread_u32 b3 = Some (one, rest)" and "one = 1 \<or> one = 0x1000000 \<or> ndebug"
    and "fread_u32 rest = Some (sz0, rs)"
    and "length rs < 9 * unat (if one \<noteq> 1 then endianSwapU32 sz0 else sz0)"
  shows "load3 ndebug b3 = Inl (Exit1 [msg_record])"
proof -
  from assms(4) have "load_records (one \<noteq> 1) (unat (if one \<noteq> 1 then endianSwapU32 sz0 else sz0)) rs v = None" for v
    by (rule load_records_short)
  with assms(1-3) show ?thesis
    by (auto simp: load3_def Let_def)
qed

lemma load_failures_reported:
  "load ndebug None f4 = Returned unloaded [msg_open3]
   \<and> (load ndebug (Some b3) None \<noteq> AssertAbort \<longrightarrow> stops_with_message (load ndebug (Some b3) None))
   \<and> (fread_u32 b3 = None \<longrightarrow> load ndebug (Some b3) f4 = Exit1 [msg_first_word])
   \<and> (fread_u32 b3 = Some (one, rest) \<and> (one = 1 \<or> one = 0x1000000 \<or> ndebug)
        \<and> fread_u32 rest = None
        \<longrightarrow> load ndebug (Some b3) f4 = Exit1 [msg_nrecords])
   \<and> (fread_u32 b3 = Some (one, rest) \<and> (one = 1 \<or> one = 0x1000000 \<or> ndebug)
        \<and> fread_u32 rest = Some (sz0, rs)
        \<and> length rs < 9 * unat (if one \<noteq> 1 then endianSwapU32 sz0 else sz0)
        \<longrightarrow> load ndebug (Some b3) f4 = Exit1 [msg_record])
   \<and> (load ndebug (Some b3) (Some b4) = Returned st [] \<and> n < length (buf st)
        \<longrightarrow> load ndebug (Some b3) (Some (take n b4)) = Exit1 [msg_short])
   \<and> (fread_u32 b3 = Some (one, rest) \<and> one \<noteq> 1 \<and> one \<noteq> 0x1000000
        \<longrightarrow> load False (Some b3) f4 = AssertAbort
            \<and> load True (Some b3) f4 = load True (Some ([0, 0, 0, 1] @ rest)) f4)"
proof (intro conjI impI)
  show "load ndebug None f4 = Returned unloaded [msg_open3]"
    by (simp add: load_def)
next
  assume "load ndebug (Some b3) None \<noteq> AssertAbort"
  then show "stops_with_message (load ndebug (Some b3) None)"
    using load4_missing load3_out [of ndebug b3]
    by (cases "load3 ndebug b3") (auto simp: load_def)
next
  assume "fread_u32 b3 = None"
  then show "load ndebug (Some b3) f4 = Exit1 [msg_first_word]"
    by (simp add: load_def load3_def)
next
  assume a: "fread_u32 b3 = Some (one, rest) \<and> (one = 1 \<or> one = 0x1000000 \<or> ndebug)
        \<and> fread_u32 rest = None"
  from a have x1: "fread_u32 b3 = Some (one, rest)" by (rule conjunct1)
  from a have x2: "one = 1 \<or> one = 0x1000000 \<or> ndebug" by (rule conjunct2 [THEN conjunct1])
  from a have x3: "fread_u32 rest = None" by (rule conjunct2 [THEN conjunct2])
  have "load3 ndebug b3 = Inl (Exit1 [msg_nrecords])"
    by (rule load3_nrecords [OF x1 x2 x3])
  then show "load ndebug (Some b3) f4 = Exit1 [msg_nrecords]" by (simp add: load_def)
next
  assume a: "fread_u32 b3 = Some (one, rest) \<and> (one = 1 \<or> one = 0x1000000 \<or> ndebug)
        \<and> fread_u32 rest = Some (sz0, rs)
        \<and> length rs < 9 * unat (if one \<noteq> 1 then endianSwapU32 sz0 else sz0)"
  from a have x1: "fread_u32 b3 = Some (one, rest)" by (rule conjunct1)
  from a have x2: "one = 1 \<or> one = 0x1000000 \<or> ndebug" by (rule conjunct2 [THEN conjunct1])
  from a have x3: "fread_u32 rest = Some (sz0, rs)"
    by (rule conjunct2 [THEN conjunct2, THEN conjunct1])
  from a have x4: "length rs < 9 * unat (if one \<noteq> 1 then endianSwapU32 sz0 else sz0)"
    by (rule conjunct2 [THEN conjunct2, THEN conjunct2])
  have "load3 ndebug b3 = Inl (Exit1 [msg_record])"
    by (rule load3_record [OF x1 x2 x3 x4])
  then show "load ndebug (Some b3) f4 = Exit1 [msg_record]" by (simp add: load_def)
next
  assume a: "load ndebug (Some b3) (Some b4) = Returned st [] \<and> n < length (buf st)"
  show "load ndebug (Some b3) (Some (take n b4)) = Exit1 [msg_short]"
  proof (cases "load3 ndebug b3")
    case (Inl out)
    with a load3_out [OF Inl] show ?thesis by (auto simp: load_def)
  next
    case (Inr v)
    with a have "load4 ndebug v (Some b4) = Returned st []" by (simp add: load_def)
    from load4_short [OF this] a Inr show ?thesis by (simp add: load_def)
  qed
next
  assume a: "fread_u32 b3 = Some (one, rest) \<and> one \<noteq> 1 \<and> one \<noteq> 0x1000000"
  then show "load False (Some b3) f4 = AssertAbort"
    by (simp add: load_def load3_def)
next
  assume a: "fread_u32 b3 = Some (one, rest) \<and> one \<noteq> 1 \<and> one \<noteq> 0x1000000"
  then have "load3 True b3 = load3 True ([0, 0, 0, 1] @ rest)"
    by (simp add: load3_swapped)
  then show "load True (Some b3) f4 = load True (Some ([0, 0, 0, 1] @ rest)) f4"
    by (simp add: load_def del: append.simps)
qed

section \<open>The bounds passed to the recursive call\<close>

lemma exACCA_text: "textEbwt [0, 1, 1, 0] = exACCA"
proof -
  have "map (naiveFchr [0, 1, 1, 0]) [0, 1, 2, 3, 4] = [1, 3, 5, 5, 5]" by code_simp
  moreover have "bwtColumn [0, 1, 1, 0] = [Some 0, Some 1, None, Some 1, Some 0]" by code_simp
  ultimately show ?thesis by (simp only: textEbwt_def exACCA_def)
qed

text \<open>
  C4, as the specification states it, third clause: with half-and-half on and a target
  \<open>i < twoRev\<close>, the recursive call gets \<open>btTwoRev = oneRev\<close>.  In the first frame of the
  half-and-half example the target chosen is \<open>i = 1\<close>, below \<open>oneRev = 2\<close> and so below
  \<open>twoRev = 4\<close>; the branch \<^verbatim>\<open>if(i < oneRevOff)\<close> of line 763 is taken, the \<^verbatim>\<open>else if\<close> of line
  773 is not reached, and the call gets \<open>btTwoRev = 4\<close>, not 2.
\<close>

theorem C4_counterexample:
  "halfAndHalf exHH
   \<and> (case pickTarget exHH exHHTop (fst exHHAt) (snd exHHAt) of
        Inl err \<Rightarrow> False
      | Inr (tg, s1) \<Rightarrow>
          t_i tg < f_twoRevOff exHHTop
          \<and> f_twoRevOff (childFrame exHH exHHTop tg) \<noteq> f_oneRevOff exHHTop
          \<and> (t_i tg, f_oneRevOff exHHTop, f_twoRevOff exHHTop) = (1, 2, 4)
          \<and> f_twoRevOff (childFrame exHH exHHTop tg) = 4)"
  by code_simp

lemma callable_twoRev:
  "callable cfg fr \<Longrightarrow> f_twoRevOff fr = twoRevOff cfg \<or> (halfAndHalf cfg \<and> f_oneRevOff fr \<le> f_depth fr)"
proof (induction rule: callable.induct)
  case (top depth top1 bot1 iham)
  then show ?case by (simp add: topFrame_def)
next
  case (child fr lc s tg s1)
  from pickTarget_range [OF child.hyps(2)] child.IH show ?case
    by (auto simp: childFrame_def tighten_def)
qed

text \<open>
  C4, amended.  Let a target \<open>i\<close> be chosen in a frame that the search can enter, with
  bounds \<open>unrev\<close>, \<open>oneRev\<close>, \<open>twoRev\<close>.  If \<open>i < oneRev\<close> the recursive call gets
  \<open>btUnrev = oneRev\<close>, \<open>btOneRev = twoRev\<close> and \<open>btTwoRev = twoRev\<close>, with half-and-half on
  or off (the code assigns the member \<^verbatim>\<open>_2revOff\<close> to \<^verbatim>\<open>btOneRevOff\<close>, which in such a frame
  equals the frame's \<open>twoRev\<close>).  If \<open>oneRev \<le> i < twoRev\<close> and half-and-half is off it gets
  \<open>btOneRev = twoRev\<close> and the other two unchanged.  If \<open>oneRev \<le> i < twoRev\<close> and
  half-and-half is on it gets \<open>btTwoRev = oneRev\<close> and the other two unchanged.  Otherwise
  the three bounds are passed unchanged.
\<close>

theorem C4_tightening:
  assumes "callable cfg fr" and "pickTarget cfg fr lc s = Inr (tg, s1)"
  shows "(t_i tg < f_oneRevOff fr \<longrightarrow>
            f_unrevOff (childFrame cfg fr tg) = f_oneRevOff fr
            \<and> f_oneRevOff (childFrame cfg fr tg) = f_twoRevOff fr
            \<and> f_twoRevOff (childFrame cfg fr tg) = f_twoRevOff fr)
       \<and> (f_oneRevOff fr \<le> t_i tg \<and> t_i tg < f_twoRevOff fr \<and> \<not> halfAndHalf cfg \<longrightarrow>
            f_unrevOff (childFrame cfg fr tg) = f_unrevOff fr
            \<and> f_oneRevOff (childFrame cfg fr tg) = f_twoRevOff fr
            \<and> f_twoRevOff (childFrame cfg fr tg) = f_twoRevOff fr)
       \<and> (f_oneRevOff fr \<le> t_i tg \<and> t_i tg < f_twoRevOff fr \<and> halfAndHalf cfg \<longrightarrow>
            f_unrevOff (childFrame cfg fr tg) = f_unrevOff fr
            \<and> f_oneRevOff (childFrame cfg fr tg) = f_oneRevOff fr
            \<and> f_twoRevOff (childFrame cfg fr tg) = f_oneRevOff fr)
       \<and> (f_twoRevOff fr \<le> t_i tg \<and> f_oneRevOff fr \<le> t_i tg \<longrightarrow>
            f_unrevOff (childFrame cfg fr tg) = f_unrevOff fr
            \<and> f_oneRevOff (childFrame cfg fr tg) = f_oneRevOff fr
            \<and> f_twoRevOff (childFrame cfg fr tg) = f_twoRevOff fr)"
proof -
  from callable_twoRev [OF assms(1)] pickTarget_range [OF assms(2)]
  have "t_i tg < f_oneRevOff fr \<longrightarrow> twoRevOff cfg = f_twoRevOff fr"
    by auto
  then show ?thesis
    by (auto simp: childFrame_def tighten_def)
qed

theorem C4_witness:
  "\<exists>tg s1. pickTarget exHH exHHTop (fst exHHAt) (snd exHHAt) = Inr (tg, s1)
     \<and> t_i tg = 1
     \<and> f_unrevOff (childFrame exHH exHHTop tg) = 2
     \<and> f_oneRevOff (childFrame exHH exHHTop tg) = 4
     \<and> f_twoRevOff (childFrame exHH exHHTop tg) = 4"
proof -
  have "case pickTarget exHH exHHTop (fst exHHAt) (snd exHHAt) of
          Inl err \<Rightarrow> False | Inr (tg, s1) \<Rightarrow> t_i tg = 1"
    by code_simp
  then obtain tg s1 where p: "pickTarget exHH exHHTop (fst exHHAt) (snd exHHAt) = Inr (tg, s1)"
    and i: "t_i tg = 1"
    by (auto split: sum.splits)
  have c: "callable exHH exHHTop" unfolding exHHTop_def by (rule callable.top)
  have r: "f_oneRevOff exHHTop = 2" "f_twoRevOff exHHTop = 4" by code_simp+
  from C4_tightening [OF c p] i r p show ?thesis by auto
qed

section \<open>The bytes of a seedling\<close>

lemma exCC_text: "textEbwt [1, 1] = exCC"
proof -
  have "map (naiveFchr [1, 1]) [0, 1, 2, 3, 4] = [1, 1, 3, 3, 3]" by code_simp
  moreover have "bwtColumn [1, 1] = [Some 1, Some 1, None]" by code_simp
  ultimately show ?thesis by (simp only: textEbwt_def exCC_def)
qed














lemma selJ_lt4: "selJ s fr i r c [0, 1, 2, 3] = (c', Some j) \<Longrightarrow> j < 4"
  by (drule selJ_some) auto




















section \<open>Stack depth and arenas\<close>

lemma exCCCCA_text: "textEbwt [1, 1, 1, 1, 0] = exCCCCA"
proof -
  have "map (naiveFchr [1, 1, 1, 1, 0]) [0, 1, 2, 3, 4] = [1, 2, 6, 6, 6]" by code_simp
  moreover have "bwtColumn [1, 1, 1, 1, 0] = [Some 0, Some 1, Some 1, Some 1, Some 1, None]"
    by code_simp
  ultimately show ?thesis by (simp only: textEbwt_def exCCCCA_def)
qed

text \<open>
  C7.  Every frame is to stay within its own slice of \<^verbatim>\<open>_pairs\<close> and \<^verbatim>\<open>_elims\<close>, and the slices
  within the allocated arenas.  After \<^verbatim>\<open>setQuery\<close> has replaced a one-base read by a read
  of 64 bases, the arenas still have the 2048 words and 256 bytes allocated for the first
  read, while \<^verbatim>\<open>_spread\<close> is 64 and \<^verbatim>\<open>_maxStackDepth\<close> is 67.  Searching the text \<^verbatim>\<open>CCCCA\<close>,
  the frames at stack positions 1 to 4 are entered after mismatches at depths 1 to 4; the
  frame at stack position 4 starts at depth 5 and touches \<^verbatim>\<open>elims[4*64 + 5]\<close> and
  \<^verbatim>\<open>pairs[4*64*8 + 5*8 ..]\<close>, beyond the end of both arenas.
\<close>

theorem C7_arena_overflow:
  "maxStackDepth (fst exLong) = 67 \<and> spread (fst exLong) = 64
   \<and> pairsSz (fst exLong) = 2048 \<and> elimsSz (fst exLong) = 256
   \<and> backtrack (fst exLong) exCCCCA 0 (snd exLong) = Inl OutOfArena"
proof -
  have "case backtrack (fst exLong) exCCCCA 0 (snd exLong) of
          Inl err \<Rightarrow> err = OutOfArena | Inr x \<Rightarrow> False"
    by code_simp
  then have "backtrack (fst exLong) exCCCCA 0 (snd exLong) = Inl OutOfArena"
    by (simp split: sum.splits)
  moreover have "maxStackDepth (fst exLong) = 67" "spread (fst exLong) = 64"
    "pairsSz (fst exLong) = 2048" "elimsSz (fst exLong) = 256"
    by code_simp+
  ultimately show ?thesis by simp
qed

section \<open>Mismatches per region\<close>

lemma exCAAAA_text: "textEbwt [1, 0, 0, 0, 0] = exCAAAA"
proof -
  have "map (naiveFchr [1, 0, 0, 0, 0]) [0, 1, 2, 3, 4] = [1, 5, 6, 6, 6]" by code_simp
  moreover have "bwtColumn [1, 0, 0, 0, 0] = [Some 0, Some 0, Some 0, Some 0, Some 1, None]"
    by code_simp
  ultimately show ?thesis by (simp only: textEbwt_def exCAAAA_def)
qed

text \<open>
  C2.  In half-and-half mode a reported hit is to have exactly one mismatch at a depth
  below \<^verbatim>\<open>_5depth\<close> and exactly one at a depth from \<^verbatim>\<open>_5depth\<close> up to \<^verbatim>\<open>_3depth\<close>.  The read
  \<^verbatim>\<open>AAAA\<close> occurs in the text \<^verbatim>\<open>CAAAA\<close>, and the search in half-and-half mode reports that
  occurrence with an empty mismatch list.  At depth 1 and again at depth 3 the first frame
  sets \<^verbatim>\<open>keepGoingDespiteMatch\<close> (lines 660 and 672) and tries one mismatch; the flag is cleared
  at the top of the loop (line 679), so when the attempt fails and other alternatives
  remain the frame leaves the loop, goes on matching with \<open>stackDepth = 0\<close> and reports at
  the end of the read.  The test of lines 470-485 is made only on entry to a frame.
\<close>

theorem C2_half_and_half_exact_match:
  "halfAndHalf exHH \<and> depth5 exHH = 2 \<and> depth3 exHH = 4 \<and> qry exHHRead = [0, 0, 0, 0]
   \<and> (\<exists>s'. backtrack exHH exCAAAA 0 exHHRead = Inr (True, s')
          \<and> map h_mms (hits s') = [[]])"
proof -
  have "case backtrack exHH exCAAAA 0 exHHRead of
          Inl err \<Rightarrow> False | Inr (r, s') \<Rightarrow> r \<and> map h_mms (hits s') = [[]]"
    by code_simp
  then have "\<exists>s'. backtrack exHH exCAAAA 0 exHHRead = Inr (True, s')
          \<and> map h_mms (hits s') = [[]]"
    by (auto split: sum.splits)
  moreover have "halfAndHalf exHH" "depth5 exHH = 2" "depth3 exHH = 4"
    "qry exHHRead = [0, 0, 0, 0]"
    by code_simp+
  ultimately show ?thesis by simp
qed

section \<open>The quality budget of a hit\<close>

text \<open>
  C1, as the specification states it: the qualities at all positions of a reported
  mismatch list, the spliced mutation positions included, sum to at most \<^verbatim>\<open>_qualThresh\<close>.
  The read \<^verbatim>\<open>A\<close> with the mutation of offset 0 to \<^verbatim>\<open>C\<close>, default qualities (40 at every
  offset) and \<^verbatim>\<open>_qualThresh = 0\<close> is found in the text \<^verbatim>\<open>C\<close> without any backtracking;
  \<^verbatim>\<open>report\<close> splices offset 0 into the mismatch list, whose qualities sum to 40.
\<close>

theorem C1_counterexample:
  "\<exists>s' h. backtrack exMutCfg exIndexC 0 (applyMutations exMutCfg exMutRead) = Inr (True, s')
     \<and> hits s' = [h] \<and> h_mms h = [0]
     \<and> qualSum exMutCfg (h_mms h) = 40 \<and> unat (qualThresh exMutCfg) = 0
     \<and> \<not> qualSum exMutCfg (h_mms h) \<le> unat (qualThresh exMutCfg)"
proof -
  have "case backtrack exMutCfg exIndexC 0 (applyMutations exMutCfg exMutRead) of
          Inl err \<Rightarrow> False | Inr (r, s') \<Rightarrow> r \<and> map h_mms (hits s') = [[0]]"
    by code_simp
  then obtain s' where run:
    "backtrack exMutCfg exIndexC 0 (applyMutations exMutCfg exMutRead) = Inr (True, s')"
    and h: "map h_mms (hits s') = [[0]]"
    by (auto split: sum.splits)
  from h obtain h where hh: "hits s' = [h]" and m: "h_mms h = [0]" by auto
  have q: "qualSum exMutCfg [0] = 40" by code_simp
  have t: "unat (qualThresh exMutCfg) = 0" by code_simp
  from run hh m q t show ?thesis by simp
qed

lemma alt_budget:
  fixes q :: u8 and ham thresh :: u32
  assumes "unat thresh + 255 < 2 ^ 32" and "ham \<le> thresh" and "ham + ucast q \<le> thresh"
  shows "unat ham + unat q \<le> unat thresh"
proof -
  have "unat q < 2 ^ LENGTH(8)" by (rule unsigned_less)
  then have q256: "unat q < 256" by simp
  then have "unat q < 2 ^ 32" by simp
  then have "take_bit 32 (unat q) = unat q" by (simp only: take_bit_nat_eq_self)
  then have q: "unat (ucast q :: u32) = unat q" by (simp add: unsigned_ucast_eq)
  from assms(2) have "unat ham \<le> unat thresh" by (simp add: word_le_nat_alt)
  with assms(1) q256 q have "unat ham + unat (ucast q :: u32) < 2 ^ LENGTH(32)" by simp
  then have "unat (ham + ucast q) = unat ham + unat (ucast q :: u32)"
    by (rule unat_add_lem [THEN iffD1])
  with assms(3) q show ?thesis by (simp add: word_le_nat_alt)
qed

lemma curIsAlternative_budget:
  assumes "budgetOK cfg" and "f_ham fr \<le> qualThresh cfg" and "curIsAlternative cfg fr d"
  shows "unat (f_ham fr) + unat (QUAL cfg (qlen cfg - d - 1)) \<le> unat (qualThresh cfg)"
  using assms alt_budget [of "qualThresh cfg" "f_ham fr" "QUAL cfg (qlen cfg - d - 1)"]
  by (simp add: budgetOK_def curIsAlternative_def)

lemma quartetStep_low:
  assumes "quartetStep fr d c q elig i (lc, ovr, s) = (lc', ovr', s')"
  shows "l_lowAltQual lc' = l_lowAltQual lc \<or> (l_lowAltQual lc' = q \<and> elig)"
  using assms by (auto simp: quartetStep_def Let_def split: if_splits)

lemma quartet_fold_low:
  "fold (quartetStep fr d c q elig) is (lc, ovr, s) = (lc', ovr', s')
   \<Longrightarrow> l_lowAltQual lc' = l_lowAltQual lc \<or> (l_lowAltQual lc' = q \<and> elig)"
proof (induction "is" arbitrary: lc ovr s)
  case Nil
  then show ?case by simp
next
  case (Cons i "is")
  obtain lc1 ovr1 s1 where st: "quartetStep fr d c q elig i (lc, ovr, s) = (lc1, ovr1, s1)"
    by (cases "quartetStep fr d c q elig i (lc, ovr, s)") auto
  with Cons.prems have "fold (quartetStep fr d c q elig) is (lc1, ovr1, s1) = (lc', ovr', s')"
    by simp
  from Cons.IH [OF this] quartetStep_low [OF st] show ?case by auto
qed

lemma quartet_low:
  "quartet fr d c q elig (lc, ovr, s) = (lc', ovr', s')
   \<Longrightarrow> l_lowAltQual lc' = l_lowAltQual lc \<or> (l_lowAltQual lc' = q \<and> elig)"
  unfolding quartet_def by (rule quartet_fold_low)

lemma materialize_low:
  "materialize e fr lc alt c s = (lc', s') \<Longrightarrow> l_lowAltQual lc' = l_lowAltQual lc"
  by (auto simp: materialize_def Let_def split: if_splits)

lemma matchStep_low:
  assumes "matchStep cfg e fr lc s = (lc', s', kg)"
  shows "l_lowAltQual lc' = l_lowAltQual lc
         \<or> (l_lowAltQual lc' = QUAL cfg (qlen cfg - l_d lc - 1) \<and> curIsAlternative cfg fr (l_d lc))"
proof -
  obtain lc1 s1 where m: "materialize e fr lc (curIsAlternative cfg fr (l_d lc))
      (qry s ! (qlen cfg - l_d lc - 1)) s = (lc1, s1)"
    by (cases "materialize e fr lc (curIsAlternative cfg fr (l_d lc))
      (qry s ! (qlen cfg - l_d lc - 1)) s") auto
  show ?thesis
  proof (cases "curIsAlternative cfg fr (l_d lc)")
    case False
    with assms m materialize_low [OF m] show ?thesis
      by (auto simp: matchStep_def Let_def split: prod.splits)
  next
    case True
    with assms m obtain ovr s2 elig ovr' s3 where
      "quartet fr (l_d lc) (qry s ! (qlen cfg - l_d lc - 1)) (QUAL cfg (qlen cfg - l_d lc - 1))
         elig (lc1, ovr, s2) = (lc', ovr', s3)"
      by (auto simp: matchStep_def Let_def split: prod.splits)
    from quartet_low [OF this] materialize_low [OF m] True show ?thesis by auto
  qed
qed

lemma rescanL_low:
  "rescanL s fr k kq l (lc, ovr) = (lc', ovr')
   \<Longrightarrow> l_lowAltQual lc' = l_lowAltQual lc \<or> l_lowAltQual lc' = kq"
  by (auto simp: rescanL_def Let_def split: if_splits)

lemma rescanL_fold_low:
  "fold (rescanL s fr k kq) ls (lc, ovr) = (lc', ovr')
   \<Longrightarrow> l_lowAltQual lc' = l_lowAltQual lc \<or> l_lowAltQual lc' = kq"
proof (induction ls arbitrary: lc ovr)
  case Nil
  then show ?case by simp
next
  case (Cons l ls)
  obtain lc1 ovr1 where st: "rescanL s fr k kq l (lc, ovr) = (lc1, ovr1)"
    by (cases "rescanL s fr k kq l (lc, ovr)") auto
  with Cons.prems have "fold (rescanL s fr k kq) ls (lc1, ovr1) = (lc', ovr')" by simp
  from Cons.IH [OF this] rescanL_low [OF st] show ?case by auto
qed

lemma rescanK_low:
  "l_lowAltQual (rescanK cfg s fr k lc) = l_lowAltQual lc
   \<or> (l_lowAltQual (rescanK cfg s fr k lc) = QUAL cfg (qlen cfg - k - 1)
       \<and> curIsAlternative cfg fr k)"
proof (cases "curIsAlternative cfg fr k \<and> QUAL cfg (qlen cfg - k - 1) \<le> l_lowAltQual lc")
  case False
  then show ?thesis by (auto simp: rescanK_def Let_def)
next
  case True
  obtain lc' ovr' where f: "fold (rescanL s fr k (QUAL cfg (qlen cfg - k - 1))) [0, 1, 2, 3]
      (lc, QUAL cfg (qlen cfg - k - 1) < l_lowAltQual lc) = (lc', ovr')"
    by (cases "fold (rescanL s fr k (QUAL cfg (qlen cfg - k - 1))) [0, 1, 2, 3]
      (lc, QUAL cfg (qlen cfg - k - 1) < l_lowAltQual lc)") auto
  from rescanL_fold_low [OF f] f True show ?thesis
    by (auto simp: rescanK_def Let_def simp del: fold_simps)
qed

lemma rescanK_fold_lowInv:
  assumes "budgetOK cfg" and "f_ham fr \<le> qualThresh cfg"
  shows "lowInv cfg fr lc \<Longrightarrow> lowInv cfg fr (fold (rescanK cfg s fr) ks lc)"
proof (induction ks arbitrary: lc)
  case Nil
  then show ?case by simp
next
  case (Cons k ks)
  have "lowInv cfg fr (rescanK cfg s fr k lc)"
    using rescanK_low [of cfg s fr k lc] Cons.prems
      curIsAlternative_budget [OF assms, of k]
    by (auto simp: lowInv_def)
  from Cons.IH [OF this] show ?case by simp
qed

lemma rescan_lowInv:
  assumes "budgetOK cfg" and "f_ham fr \<le> qualThresh cfg"
  shows "lowInv cfg fr (rescan cfg s fr lc)"
  unfolding rescan_def
  by (rule rescanK_fold_lowInv [OF assms]) (simp add: lowInv_def)

lemma matchStep_lowInv:
  assumes "budgetOK cfg" and "f_ham fr \<le> qualThresh cfg" and "lowInv cfg fr lc"
    and "matchStep cfg e fr lc s = (lc', s', kg)"
  shows "lowInv cfg fr lc'"
  using matchStep_low [OF assms(4)] assms(3) curIsAlternative_budget [OF assms(1,2), of "l_d lc"]
  by (auto simp: lowInv_def)

lemma ham_add:
  fixes q :: u8 and ham thresh :: u32
  assumes "unat thresh + 255 < 2 ^ 32" and "unat ham \<le> unat thresh"
  shows "unat (ham + ucast q) = unat ham + unat q"
proof -
  have "unat q < 2 ^ LENGTH(8)" by (rule unsigned_less)
  then have q256: "unat q < 256" by simp
  then have "unat q < 2 ^ 32" by simp
  then have "take_bit 32 (unat q) = unat q" by (simp only: take_bit_nat_eq_self)
  then have q: "unat (ucast q :: u32) = unat q" by (simp add: unsigned_ucast_eq)
  from assms q256 q have "unat ham + unat (ucast q :: u32) < 2 ^ LENGTH(32)" by simp
  then have "unat (ham + ucast q) = unat ham + unat (ucast q :: u32)"
    by (rule unat_add_lem [THEN iffD1])
  with q show ?thesis by simp
qed

lemma QUAL_not_ff: "QUAL cfg k \<noteq> 0xff"
proof
  assume "QUAL cfg k = 0xff"
  then have "unat (QUAL cfg k) = 255" by simp
  with QUAL_le [of cfg k] show False by simp
qed

lemma selI_qual:
  "selI cfg s fr low r c is = Some (i, j) \<Longrightarrow> QUAL cfg (qlen cfg - i - 1) = low"
  by (induction "is" arbitrary: c) (auto split: if_splits prod.splits option.splits)

lemma pickTarget_budget:
  assumes "pickTarget cfg fr lc s = Inr (tg, s1)"
  shows "QUAL cfg (t_icur tg) = l_lowAltQual lc
         \<and> t_ham tg = f_ham fr + ucast (QUAL cfg (t_icur tg))"
  using assms
  by (auto simp: pickTarget_def Let_def split: if_splits option.splits dest: selI_qual)

lemma qualSum_snoc: "qualSum cfg (ps @ [p]) = qualSum cfg ps + unat (QUAL cfg (unat p))"
  by (simp add: qualSum_def)

lemma mmsList_cong: "(\<forall>n < k. mms s' n = mms s n) \<Longrightarrow> mmsList s' k = mmsList s k"
  by (simp add: mmsList_def)

lemma hamInv_cong:
  assumes "\<forall>n < f_stackDepth fr. mms s' n = mms s n"
  shows "hamInv cfg fr s' = hamInv cfg fr s"
proof -
  from assms have "mmsList s' (f_stackDepth fr) = mmsList s (f_stackDepth fr)"
    by (rule mmsList_cong)
  then show ?thesis by (simp add: hamInv_def)
qed

lemma child_hamInv:
  assumes b: "budgetOK cfg" and h: "hamInv cfg fr s" and l: "lowInv cfg fr lc"
    and p: "pickTarget cfg fr lc s = Inr (tg, s1)"
  shows "hamInv cfg (childFrame cfg fr tg) s1"
proof -
  let ?q = "QUAL cfg (t_icur tg)" and ?k = "f_stackDepth fr"
  from pickTarget_budget [OF p] have q: "?q = l_lowAltQual lc"
    and th: "t_ham tg = f_ham fr + ucast ?q" by simp_all
  from pickTarget_fields [OF p] have m: "mms s1 = (mms s)(?k := of_nat (t_icur tg))"
    and ic: "t_icur tg = qlen cfg - t_i tg - 1" by simp_all
  from q QUAL_not_ff [of cfg "t_icur tg"] l
  have bud: "unat (f_ham fr) + unat ?q \<le> unat (qualThresh cfg)"
    by (simp add: lowInv_def)
  from h have hle: "unat (f_ham fr) \<le> unat (qualThresh cfg)"
    by (simp add: hamInv_def word_le_nat_alt)
  from b have t: "unat (qualThresh cfg) + 255 < 2 ^ 32" by (simp add: budgetOK_def)
  from ham_add [OF t hle] th have u: "unat (t_ham tg) = unat (f_ham fr) + unat ?q" by simp
  from ic have "t_icur tg \<le> qlen cfg" by simp
  moreover from b have "qlen cfg < 2 ^ 32" by (simp add: budgetOK_def)
  ultimately have "t_icur tg < 2 ^ 32" by simp
  then have "take_bit 32 (t_icur tg) = t_icur tg" by (simp only: take_bit_nat_eq_self)
  then have un: "unat (of_nat (t_icur tg) :: u32) = t_icur tg"
    by (simp add: unsigned_of_nat)
  have "mmsList s1 (Suc ?k) = mmsList s ?k @ [of_nat (t_icur tg)]"
    using m by (simp add: mmsList_def)
  then have "qualSum cfg (mmsList s1 (Suc ?k)) = qualSum cfg (mmsList s ?k) + unat ?q"
    using un by (simp add: qualSum_snoc)
  with h u bud show ?thesis
    by (simp add: hamInv_def childFrame_def word_le_nat_alt split: prod.splits)
qed

lemma budgetPost_refl: "budgetPost cfg iham k s s"
  by (simp add: budgetPost_def)

lemma budgetPost_trans:
  "budgetPost cfg iham k s0 s \<Longrightarrow> budgetPost cfg iham k s s' \<Longrightarrow> budgetPost cfg iham k s0 s'"
  unfolding budgetPost_def
  by (elim conjE exE) (rule conjI, simp, rule_tac x = "new @ newa" in exI, auto)

lemma budgetPost_same:
  "(\<forall>n < k. mms s' n = mms s n) \<Longrightarrow> hits s' = hits s \<Longrightarrow> budgetPost cfg iham k s s'"
  by (simp add: budgetPost_def)

lemma budgetPost_weaken: "budgetPost cfg iham (Suc k) s s' \<Longrightarrow> budgetPost cfg iham k s s'"
  by (auto simp: budgetPost_def)

lemma spliceMuts_below: "n < k \<Longrightarrow> spliceMuts ms k m n = m n"
  by (induction ms arbitrary: k m) simp_all

lemma applyMutations_mms: "mms (applyMutations cfg s) = mms s"
  by (simp add: applyMutations_def split: option.splits)

lemma undoMutations_mms: "mms (undoMutations cfg s) = mms s"
  by (simp add: undoMutations_def split: option.splits)

lemma reportHit_budget:
  assumes "reportHit cfg e k' t b s = Inr (ret, s')"
  shows "mms s' = mms s
         \<and> (hits s' = hits s
            \<or> (\<exists>row. hits s' = hits s @ [\<lparr>h_row = row, h_mms = mmsList s k', h_qry = qry s\<rparr>]))"
  using assms
  by (auto simp: reportHit_def Let_def mmsList_def split: if_splits option.splits)

lemma take_mmsList: "take k (mmsList s (k + n)) = mmsList s k"
  by (simp add: mmsList_def take_map)

lemma report_budget:
  assumes r: "report cfg e k t b s = Inr (ret, s')"
    and h: "unat iham + qualSum cfg (mmsList s k) \<le> unat (qualThresh cfg)"
  shows "budgetPost cfg iham k s s'"
proof (cases "reportSeedlings cfg > 0")
  case True
  with r show ?thesis by (auto simp: report_def reportSeedling_def budgetPost_def)
next
  case False
  define s1 where "s1 = undoMutations cfg s"
  define s1' where "s1' = (case muts cfg of Some ms \<Rightarrow> s1\<lparr>mms := spliceMuts ms k (mms s1)\<rparr> | None \<Rightarrow> s1)"
  define k' where "k' = k + nmuts cfg"
  from r False obtain s2 where rh: "reportHit cfg e k' t b s1' = Inr (ret, s2)"
    and s': "s' = applyMutations cfg s2"
    by (auto simp: report_def Let_def s1_def s1'_def k'_def nmuts_def split: option.splits sum.splits)
  have below: "\<forall>n < k. mms s1' n = mms s n"
    by (simp add: s1'_def s1_def undoMutations_mms spliceMuts_below split: option.splits)
  have hs: "hits s1' = hits s"
    by (simp add: s1'_def s1_def undoMutations_hits split: option.splits)
  have ok: "hitOK cfg iham \<lparr>h_row = row, h_mms = mmsList s1' k', h_qry = q\<rparr>" for row q
  proof -
    have "take k (mmsList s1' k') = mmsList s1' k" unfolding k'_def by (rule take_mmsList)
    also have "\<dots> = mmsList s k" using below by (rule mmsList_cong)
    finally show ?thesis using h
      by (simp add: hitOK_def backtrackedMms_def mmsList_def k'_def)
  qed
  from reportHit_budget [OF rh] have m2: "mms s2 = mms s1'"
    and h2: "hits s2 = hits s1' \<or> (\<exists>row. hits s2 = hits s1' @ [\<lparr>h_row = row, h_mms = mmsList s1' k', h_qry = qry s1'\<rparr>])"
    by simp_all
  from h2 show ?thesis
  proof
    assume "hits s2 = hits s1'"
    with m2 below hs s' show ?thesis
      by (simp add: budgetPost_def applyMutations_mms applyMutations_hits)
  next
    assume "\<exists>row. hits s2 = hits s1' @ [\<lparr>h_row = row, h_mms = mmsList s1' k', h_qry = qry s1'\<rparr>]"
    then obtain row where "hits s2 = hits s1' @ [\<lparr>h_row = row, h_mms = mmsList s1' k', h_qry = qry s1'\<rparr>]"
      by blast
    with m2 below hs s' ok [of row "qry s1'"] show ?thesis
      by (simp add: budgetPost_def applyMutations_mms applyMutations_hits)
  qed
qed

lemma failUpdate_low: "failUpdate fr lc tg s = (lc', s') \<Longrightarrow> l_lowAltQual lc' = l_lowAltQual lc"
  by (auto simp: failUpdate_def Let_def)

lemma childFrame_fields:
  "f_iham (childFrame cfg fr tg) = f_iham fr
   \<and> f_stackDepth (childFrame cfg fr tg) = Suc (f_stackDepth fr)"
  by (simp add: childFrame_def split: prod.splits)

lemma hamInv_budget:
  "hamInv cfg fr s \<Longrightarrow>
   unat (f_iham fr) + qualSum cfg (mmsList s (f_stackDepth fr)) \<le> unat (qualThresh cfg)"
  by (simp add: hamInv_def word_le_nat_alt)

lemma pick_post:
  assumes "pickTarget cfg fr lc s = Inr (tg, s1)"
  shows "budgetPost cfg iham (f_stackDepth fr) s s1"
  using pickTarget_fields [OF assms] by (simp add: budgetPost_same)

lemma bt_frame_budget:
  "budgetPre cfg e fr s \<longrightarrow> budgetRes cfg e fr s (bt_frame cfg e fr s)"
proof (rule bt_hoare(1) [where Pre = budgetPre and I = budgetInv and R = budgetRes], goal_cases)
  case (1 cfg e fr s)
  then show ?case by (simp add: budgetRes_def)
next
  case (2 cfg e fr s)
  then show ?case by (simp add: budgetRes_def budgetPost_refl)
next
  case (3 cfg e fr s)
  then show ?case
    by (simp add: budgetPre_def budgetInv_def budgetPost_refl lowInv_def initLocals_def)
next
  case (4 cfg e fr s0 lc s)
  then have h: "hamInv cfg fr s" and p: "budgetPost cfg (f_iham fr) (f_stackDepth fr) s0 s"
    by (simp_all add: budgetInv_def)
  show ?case
    unfolding budgetRes_def
  proof (intro allI impI)
    fix ret s' assume f: "finish cfg e fr lc s = Inr (ret, s')"
    show "budgetPost cfg (f_iham fr) (f_stackDepth fr) s0 s'"
    proof (cases "f_stackDepth fr \<ge> reportSeedlings cfg")
      case True
      with f have "report cfg e (f_stackDepth fr) (l_top lc) (l_bot lc) s = Inr (ret, s')"
        by (simp add: finish_def)
      from report_budget [OF this hamInv_budget [OF h]] p show ?thesis
        by (rule budgetPost_trans [rotated])
    next
      case False
      with f p show ?thesis by (simp add: finish_def)
    qed
  qed
next
  case (5 cfg e fr s0 lc s)
  then show ?case by (simp add: budgetRes_def)
next
  case (6 cfg e fr s0 lc s lc1 s1 kg)
  from 6(1) have b: "budgetOK cfg" and h: "hamInv cfg fr s" and l: "lowInv cfg fr lc"
    and p: "budgetPost cfg (f_iham fr) (f_stackDepth fr) s0 s"
    by (simp_all add: budgetInv_def)
  from matchStep_fields [OF 6(4)] have m: "mms s1 = mms s" and hs: "hits s1 = hits s" by simp_all
  from h have hle: "f_ham fr \<le> qualThresh cfg" by (simp add: hamInv_def)
  have "hamInv cfg fr s1" using h m by (simp add: hamInv_cong [of fr s1 s])
  moreover have "lowInv cfg fr lc1" by (rule matchStep_lowInv [OF b hle l 6(4)])
  moreover have "budgetPost cfg (f_iham fr) (f_stackDepth fr) s0 s1"
    by (rule budgetPost_trans [OF p]) (simp add: budgetPost_same m hs)
  ultimately show ?case using b by (simp add: budgetInv_def)
next
  case (7 cfg e fr s0 lc s err)
  then show ?case by (simp add: budgetRes_def)
next
  case (8 cfg e fr s0 lc s tg s1)
  from 8(1) have b: "budgetOK cfg" and h: "hamInv cfg fr s" and l: "lowInv cfg fr lc"
    by (simp_all add: budgetInv_def)
  from child_hamInv [OF b h l 8(3)] b show ?case
    by (simp add: budgetPre_def)
next
  case (9 cfg e fr s0 lc s tg s1)
  from 9(1) have b: "budgetOK cfg" and h: "hamInv cfg fr s" and l: "lowInv cfg fr lc"
    by (simp_all add: budgetInv_def)
  from child_hamInv [OF b h l 9(3)] have "hamInv cfg (childFrame cfg fr tg) s1" .
  from hamInv_budget [OF this]
  have hb: "unat (f_iham fr) + qualSum cfg (mmsList s1 (Suc (f_stackDepth fr))) \<le> unat (qualThresh cfg)"
    by (simp add: childFrame_fields)
  show ?case
    unfolding budgetRes_def
  proof (intro allI impI)
    fix ret s' assume "report cfg e (f_stackDepth fr + 1) (t_top tg) (t_bot tg) s1 = Inr (ret, s')"
    then have "report cfg e (Suc (f_stackDepth fr)) (t_top tg) (t_bot tg) s1 = Inr (ret, s')"
      by simp
    from report_budget [OF this hb]
    show "budgetPost cfg (f_iham (childFrame cfg fr tg)) (f_stackDepth (childFrame cfg fr tg)) s1 s'"
      by (simp add: childFrame_fields)
  qed
next
  case (10 cfg e fr s0 lc s tg s1 err)
  then show ?case by (simp add: budgetRes_def)
next
  case (11 cfg e fr s0 lc s tg s1 s2)
  from 11(1) have p: "budgetPost cfg (f_iham fr) (f_stackDepth fr) s0 s"
    by (simp add: budgetInv_def)
  from 11(4) have "budgetPost cfg (f_iham fr) (Suc (f_stackDepth fr)) s1 s2"
    by (auto simp: budgetRes_def childFrame_fields)
  then have c: "budgetPost cfg (f_iham fr) (f_stackDepth fr) s1 s2" by (rule budgetPost_weaken)
  have "budgetPost cfg (f_iham fr) (f_stackDepth fr) s0 s2"
    by (rule budgetPost_trans [OF budgetPost_trans [OF p pick_post [OF 11(3)]] c])
  then show ?case by (simp add: budgetRes_def)
next
  case (12 cfg e fr s0 lc s tg s1 s2 lc2 s3)
  from 12(1) have b: "budgetOK cfg" and h: "hamInv cfg fr s" and l: "lowInv cfg fr lc"
    and p: "budgetPost cfg (f_iham fr) (f_stackDepth fr) s0 s"
    by (simp_all add: budgetInv_def)
  from h have hle: "f_ham fr \<le> qualThresh cfg" by (simp add: hamInv_def)
  from 12(4) have "budgetPost cfg (f_iham fr) (Suc (f_stackDepth fr)) s1 s2"
    by (auto simp: budgetRes_def childFrame_fields)
  then have c: "budgetPost cfg (f_iham fr) (f_stackDepth fr) s1 s2" by (rule budgetPost_weaken)
  from failUpdate_fields [OF 12(5)] have m3: "mms s3 = mms s2" and h3: "hits s3 = hits s2"
    by simp_all
  have s3: "budgetPost cfg (f_iham fr) (f_stackDepth fr) s s3"
    by (rule budgetPost_trans [OF budgetPost_trans [OF pick_post [OF 12(3)] c]])
       (simp add: budgetPost_same m3 h3)
  then have p3: "budgetPost cfg (f_iham fr) (f_stackDepth fr) s0 s3"
    by (rule budgetPost_trans [OF p])
  from s3 have "\<forall>n < f_stackDepth fr. mms s3 n = mms s n" by (simp add: budgetPost_def)
  then have h3': "hamInv cfg fr s3" using h by (simp add: hamInv_cong [of fr s3 s])
  have l2: "lowInv cfg fr lc2" using l failUpdate_low [OF 12(5)] by (simp add: lowInv_def)
  have "lowInv cfg fr (if l_eligibleNum lc2 = 0 then rescan cfg s3 fr lc2 else lc2)"
    using l2 rescan_lowInv [OF b hle] by simp
  with b h3' p3 show ?case by (simp add: budgetRes_def budgetInv_def)
next
  case (13 cfg e fr s0 lc s)
  then show ?case by (simp add: budgetRes_def budgetInv_def)
next
  case (14 cfg e fr s0 lc s c)
  from 14(1) have b: "budgetOK cfg" and h: "hamInv cfg fr s" and l: "lowInv cfg fr lc"
    and p: "budgetPost cfg (f_iham fr) (f_stackDepth fr) s0 s"
    by (simp_all add: budgetInv_def)
  let ?s = "s\<lparr>chars := (chars s)(l_d lc := c)\<rparr>"
  have "hamInv cfg fr ?s" using h by (simp add: hamInv_cong [of fr ?s s])
  moreover have "lowInv cfg fr (lc\<lparr>l_d := l_d lc + 1\<rparr>)" using l by (simp add: lowInv_def)
  moreover have "budgetPost cfg (f_iham fr) (f_stackDepth fr) s0 ?s"
    by (rule budgetPost_trans [OF p]) (simp add: budgetPost_same)
  ultimately show ?case using b by (simp add: budgetInv_def)
qed

lemma topFrame_hamInv: "ham \<le> qualThresh cfg \<Longrightarrow> hamInv cfg (topFrame cfg depth t b ham) s"
  by (simp add: hamInv_def topFrame_def mmsList_def qualSum_def)

text \<open>
  C1, amended.  Let \<^verbatim>\<open>backtrack(ham)\<close> be called with \<^verbatim>\<open>ham <= _qualThresh\<close>, the threshold
  leaving room for one quality below \<open>2\<^sup>3\<^sup>2\<close>.  Then for every hit the call adds to the
  sink, \<^verbatim>\<open>ham\<close> plus the sum of \<^verbatim>\<open>QUAL(pos)\<close> over the mismatch positions chosen by
  backtracking (the reported list without the spliced mutation positions) is at most
  \<^verbatim>\<open>_qualThresh\<close>.  With no mutations in force and \<^verbatim>\<open>ham = 0\<close> this is the sum over the
  whole reported list.
\<close>

theorem C1_budget:
  assumes run: "backtrack cfg e ham s = Inr (ret, s')"
    and ham: "ham \<le> qualThresh cfg"
    and thresh: "unat (qualThresh cfg) + 255 < 2 ^ 32"
    and len: "qlen cfg < 2 ^ 32"
  shows "\<exists>new. hits s' = hits s @ new
           \<and> (\<forall>h \<in> set new. unat ham + qualSum cfg (backtrackedMms cfg h) \<le> unat (qualThresh cfg))"
proof -
  have b: "budgetOK cfg" using thresh len by (simp add: budgetOK_def)
  have "budgetPost cfg ham 0 s s'"
    using run
  proof (cases rule: backtrack_cases)
    case (direct t b)
    from ham have "unat ham + qualSum cfg (mmsList s 0) \<le> unat (qualThresh cfg)"
      by (simp add: mmsList_def qualSum_def word_le_nat_alt)
    from report_budget [OF direct(1) this] show ?thesis .
  next
    case (search depth t b)
    have "budgetPre cfg e (topFrame cfg depth t b ham) s"
      using b topFrame_hamInv [OF ham] by (simp add: budgetPre_def)
    with bt_frame_budget [of cfg e "topFrame cfg depth t b ham" s] search(1)
    show ?thesis by (simp add: budgetRes_def topFrame_def)
  next
    case closed
    then show ?thesis by (simp add: budgetPost_refl)
  qed
  then show ?thesis by (simp add: budgetPost_def hitOK_def)
qed

theorem C1_witness:
  "\<exists>s' h. backtrack exHH exACCA 0 exHHRead = Inr (True, s')
     \<and> hits s' = [h] \<and> h_mms h = [2, 1]
     \<and> unat (0 :: u32) + qualSum exHH (backtrackedMms exHH h) \<le> unat (qualThresh exHH)
     \<and> qualSum exHH [2, 1] = 15 \<and> unat (qualThresh exHH) = 100"
proof -
  have "case backtrack exHH exACCA 0 exHHRead of
          Inl err \<Rightarrow> False | Inr (r, s') \<Rightarrow> r \<and> map h_mms (hits s') = [[2, 1]]"
    by code_simp
  then obtain s' where run: "backtrack exHH exACCA 0 exHHRead = Inr (True, s')"
    and h: "map h_mms (hits s') = [[2, 1]]"
    by (auto split: sum.splits)
  from h obtain h where hh: "hits s' = [h]" and m: "h_mms h = [2, 1]" by auto
  have t: "unat (qualThresh exHH) = 100" by code_simp
  have l: "qlen exHH = 4" by code_simp
  have q: "qualSum exHH [2, 1] = 15" by code_simp
  have e: "hits exHHRead = []" by code_simp
  have "(0 :: u32) \<le> qualThresh exHH" by simp
  from C1_budget [OF run this] t l e hh
  have "unat (0 :: u32) + qualSum exHH (backtrackedMms exHH h) \<le> unat (qualThresh exHH)"
    by simp
  with run hh m q t show ?thesis by simp
qed

end
